theory Spec2Isabelle
  imports Complex_Main
begin

section \<open>Data model\<close>

text \<open>
  The engine drives tasks against a mutable external world (the game state behind the
  kolmafia primitives).  The world is a type parameter \<open>'w\<close>; the compiled combat script
  (libram's Macro class) is a type parameter \<open>'m\<close>.  A callback of the source is a function
  of the world; one that mutates the world returns the new world, or the value it throws.
\<close>

datatype item = Item string
datatype skill = Skill string
datatype familiar = Familiar string
datatype location = Location string
datatype monster = Monster (monster_name: string) (monster_id: nat)

text \<open>Every \<open>throw\<close> of the source is a constructor; the fields are the values the
  message text is built from.\<close>

datatype error =
    UnknownTaskDependencyOf string string
  | UnknownRoutingTask string
  | UnknownTaskDependencyOn string string
  | UnableToAcquire string int item
  | TriesExceeded string int string
  | SoftExceeded string int string
  | TurnsExceeded string int string
  | Thrown string

record limit =
  tries :: "int option"
  turns :: "int option"
  soft :: "int option"
  message :: "string option"

record outfit_spec =
  spec_equip :: "item list option"
  spec_modifier :: "string option"
  spec_familiar :: "familiar option"
  spec_avoid :: "item list option"
  spec_skipDefaults :: "bool option"

datatype 'w outfit_arg = Spec outfit_spec | SpecFn "'w \<Rightarrow> outfit_spec"

record 'w acquire_item =
  acq_item :: item
  acq_num :: "int option"
  acq_price :: "int option"
  acq_useful :: "('w \<Rightarrow> bool) option"
  acq_optional :: "bool option"
  acq_get :: "('w \<Rightarrow> error + 'w) option"

datatype 'w choice = Fixed int | Chosen "'w \<Rightarrow> int"

datatype 'w task_do = AtLocation location | Call "'w \<Rightarrow> error + 'w"

text \<open>A DelayedMacro is a Macro or a callback that produces one.\<close>

datatype ('w, 'm) delayed_macro = Literal 'm | Deferred "'w \<Rightarrow> 'm"

text \<open>
  A CombatStrategy object.  Its two Map fields and the arrays they hold are objects of
  their own, shared by reference, so they live in a heap and the strategy holds their
  addresses; a JS Map is an association list in insertion order.
\<close>

type_synonym ref = nat

record ('w, 'm) heap =
  arrays :: "ref \<Rightarrow> ('w, 'm) delayed_macro list"
  macro_maps :: "ref \<Rightarrow> (monster \<times> ref) list"
  action_maps :: "ref \<Rightarrow> (monster \<times> string) list"
  next_ref :: ref

record ('w, 'm) combat_strategy =
  starting_macro :: "('w, 'm) delayed_macro option"
  default_macro :: "ref option"
  macros :: ref
  default_action :: "string option"
  actions :: ref

record ('w, 'm) task =
  name :: string
  after :: "string list option"
  ready :: "('w \<Rightarrow> bool) option"
  completed :: "'w \<Rightarrow> bool"
  prepare :: "('w \<Rightarrow> error + 'w) option"
  do_action :: "'w task_do"
  post :: "('w \<Rightarrow> error + 'w) option"
  acquire :: "'w acquire_item list option"
  choices :: "(int \<times> 'w choice) list option"
  limit :: "limit option"
  outfit :: "'w outfit_arg option"
  combat :: "('w, 'm) combat_strategy option"

text \<open>\<open>task.after ?? []\<close>\<close>

definition after_list :: "('w, 'm) task \<Rightarrow> string list" where
  "after_list t = (case after t of None \<Rightarrow> [] | Some as \<Rightarrow> as)"

section \<open>Task graph builder: getTasks\<close>

text \<open>
  getTasks overwrites the \<open>name\<close> and \<open>after\<close> fields of the task objects its argument
  holds, so the task objects live in a store and a quest holds their addresses.
\<close>

type_synonym ('w, 'm) task_store = "ref \<Rightarrow> ('w, 'm) task"

record quest =
  quest_name :: string
  quest_tasks :: "ref list"

text \<open>\<open>after.includes("/") ? after : `${quest.name}/${after}`\<close>\<close>

definition namespace_after :: "string \<Rightarrow> string \<Rightarrow> string" where
  "namespace_after q a = (if CHR ''/'' \<in> set a then a else q @ ''/'' @ a)"

text \<open>The body of the inner loop: the state is the store and the \<open>result\<close> array.\<close>

definition visit_task ::
  "bool \<Rightarrow> string \<Rightarrow> ref \<Rightarrow> ('w, 'm) task_store \<times> ref list \<Rightarrow> ('w, 'm) task_store \<times> ref list"
where
  "visit_task implicitAfter q r st =
     (let s = fst st; result = snd st;
          s1 = s(r := (s r)\<lparr>name := q @ ''/'' @ name (s r)\<rparr>);
          s2 = s1(r := (s1 r)\<lparr>after := map_option (map (namespace_after q)) (after (s1 r))\<rparr>);
          s3 = (if implicitAfter \<and> after (s2 r) = None \<and> length result > 0
                then s2(r := (s2 r)\<lparr>after := Some [name (s2 (last result))]\<rparr>)
                else s2)
      in (s3, result @ [r]))"

definition flatten_quests ::
  "bool \<Rightarrow> quest list \<Rightarrow> ('w, 'm) task_store \<Rightarrow> ('w, 'm) task_store \<times> ref list"
where
  "flatten_quests implicitAfter quests s =
     fold (\<lambda>q st. fold (visit_task implicitAfter (quest_name q)) (quest_tasks q) st) quests (s, [])"

text \<open>The tasks of the quests in the order of the loops, each with its quest's name.\<close>

definition quest_items :: "quest list \<Rightarrow> (string \<times> ref) list" where
  "quest_items quests = concat (map (\<lambda>q. map (\<lambda>r. (quest_name q, r)) (quest_tasks q)) quests)"

text \<open>
  What the spec says of the task at position \<open>i\<close> of the flattened list, from the task the
  store held at the call: the name is prefixed with the quest's name, each entry of
  \<open>after\<close> without a separator is prefixed too, and a task with no \<open>after\<close> that is not the
  first gets, under \<open>implicitAfter\<close>, the new name of the task before it.
\<close>

definition namespaced ::
  "bool \<Rightarrow> (string \<times> ref) list \<Rightarrow> ('w, 'm) task_store \<Rightarrow> nat \<Rightarrow> ('w, 'm) task"
where
  "namespaced implicitAfter items s i =
     (s (snd (items ! i)))
       \<lparr>name := fst (items ! i) @ ''/'' @ name (s (snd (items ! i))),
        after :=
          (case after (s (snd (items ! i))) of
             Some as \<Rightarrow> Some (map (namespace_after (fst (items ! i))) as)
           | None \<Rightarrow>
               if implicitAfter \<and> 0 < i
               then Some [fst (items ! (i - 1)) @ ''/'' @ name (s (snd (items ! (i - 1))))]
               else None)\<rparr>"

text \<open>The quest prefixes a task object is given, one each time the loops visit it, the
  last visit's outermost.\<close>

definition prefixes :: "(string \<times> ref) list \<Rightarrow> ref \<Rightarrow> string" where
  "prefixes items r = concat (map (\<lambda>p. fst p @ ''/'') (rev (filter (\<lambda>p. snd p = r) items)))"

text \<open>The verification pass: the first dependency that is no task's name is thrown.\<close>

fun verify_after :: "string set \<Rightarrow> string \<Rightarrow> string list \<Rightarrow> error option" where
  "verify_after names nm [] = None"
| "verify_after names nm (a # as) =
     (if a \<notin> names then Some (UnknownTaskDependencyOf a nm) else verify_after names nm as)"

fun verify_tasks :: "string set \<Rightarrow> ('w, 'm) task list \<Rightarrow> error option" where
  "verify_tasks names [] = None"
| "verify_tasks names (t # ts) =
     (case verify_after names (name t) (after_list t) of
        Some e \<Rightarrow> Some e
      | None \<Rightarrow> verify_tasks names ts)"

text \<open>getTasks returns the store it leaves behind, and the thrown error or the result.\<close>

definition getTasks ::
  "quest list \<Rightarrow> bool \<Rightarrow> ('w, 'm) task_store \<Rightarrow> ('w, 'm) task_store \<times> (error + ref list)"
where
  "getTasks quests implicitAfter s =
     (let st = flatten_quests implicitAfter quests s;
          s' = fst st; result = snd st;
          names = set (map (\<lambda>r. name (s' r)) result)
      in case verify_tasks names (map s' result) of
           Some e \<Rightarrow> (s', Inl e)
         | None \<Rightarrow> (s', Inr result))"

section \<open>Router: orderByRoute\<close>

text \<open>
  The priorities are JS numbers, that is doubles: the sentinel 1000, the routing index, and
  \<open>priority - 0.01\<close> at each level of the recursion, which is not exact.  The model takes
  the numbers as a parameter: a linearly ordered type with the number of an index and the
  subtraction of 0.01 (the doubles the code meets, none of them NaN, are one instance; the
  rationals, where the subtraction is exact, are another).
\<close>

record 'n numbers =
  index_number :: "nat \<Rightarrow> 'n"
  minus_hundredth :: "'n \<Rightarrow> 'n"

text \<open>
  The recursion of setPriorityRecursive is not bounded by the source, so the model carries
  the depth still allowed: at depth 0 the call has not returned (\<open>None\<close>).
\<close>

type_synonym ('n, 'w, 'm) priorities = "string \<rightharpoonup> 'n \<times> ('w, 'm) task"

text \<open>A \<open>for\<close> loop over a list whose body may throw or not return.\<close>

fun for_each ::
  "('a \<Rightarrow> 's \<Rightarrow> (error + 's) option) \<Rightarrow> 'a list \<Rightarrow> 's \<Rightarrow> (error + 's) option"
where
  "for_each f [] s = Some (Inr s)"
| "for_each f (x # xs) s =
     (case f x s of
        None \<Rightarrow> None
      | Some (Inl e) \<Rightarrow> Some (Inl e)
      | Some (Inr s') \<Rightarrow> for_each f xs s')"

fun setPriorityRecursive ::
  "('n::linorder) numbers \<Rightarrow> nat \<Rightarrow> bool \<Rightarrow> string \<Rightarrow> 'n \<Rightarrow> ('n, 'w, 'm) priorities \<Rightarrow>
   (error + ('n, 'w, 'm) priorities) option"
where
  "setPriorityRecursive nums 0 ignore_missing_tasks task priority priorities = None"
| "setPriorityRecursive nums (Suc depth) ignore_missing_tasks task priority priorities =
     (case priorities task of
        None \<Rightarrow>
          if ignore_missing_tasks then Some (Inr priorities)
          else Some (Inl (UnknownRoutingTask task))
      | Some old_priority \<Rightarrow>
          if fst old_priority \<le> priority then Some (Inr priorities)
          else for_each
                 (\<lambda>requirement. setPriorityRecursive nums depth ignore_missing_tasks requirement
                    (minus_hundredth nums priority))
                 (after_list (snd old_priority))
                 (priorities(task \<mapsto> (priority, snd old_priority))))"

definition init_priorities :: "'n numbers \<Rightarrow> ('w, 'm) task list \<Rightarrow> ('n, 'w, 'm) priorities" where
  "init_priorities nums ts =
     fold (\<lambda>task m. m(name task \<mapsto> (index_number nums 1000, task))) ts Map.empty"

text \<open>\<open>(priorities.get(a.name) || [1000])[0]\<close>\<close>

definition priority_of :: "'n numbers \<Rightarrow> ('n, 'w, 'm) priorities \<Rightarrow> ('w, 'm) task \<Rightarrow> 'n" where
  "priority_of nums priorities a =
     (case priorities (name a) of None \<Rightarrow> index_number nums 1000 | Some p \<Rightarrow> fst p)"

text \<open>Array.prototype.sort is stable, as \<open>sort_key\<close> is.\<close>

definition orderByRoute ::
  "('n::linorder) numbers \<Rightarrow> nat \<Rightarrow> ('w, 'm) task list \<Rightarrow> string list \<Rightarrow> bool \<Rightarrow>
   (error + ('w, 'm) task list) option"
where
  "orderByRoute nums depth ts routing ignore_missing_tasks =
     (case for_each
             (\<lambda>(i, task). setPriorityRecursive nums depth ignore_missing_tasks task
                (index_number nums i))
             (enumerate 0 routing) (init_priorities nums ts) of
        None \<Rightarrow> None
      | Some (Inl e) \<Rightarrow> Some (Inl e)
      | Some (Inr priorities) \<Rightarrow> Some (Inr (sort_key (priority_of nums priorities) ts)))"

text \<open>The numbers with exact arithmetic.\<close>

definition exact_numbers :: "rat numbers" where
  "exact_numbers = \<lparr>index_number = of_nat, minus_hundredth = (\<lambda>x. x - 1 / 100)\<rparr>"

subsection \<open>The dependency graph and the state of the priorities\<close>

text \<open>The \<open>after\<close> edges of a task list, between names: \<open>(u, v)\<close> when a task named \<open>u\<close>
  has \<open>v\<close> in its \<open>after\<close> list.\<close>

definition requires :: "('w, 'm) task list \<Rightarrow> (string \<times> string) set" where
  "requires ts = {(u, v). \<exists>t \<in> set ts. name t = u \<and> v \<in> set (after_list t)}"

text \<open>The priority and the task that the map holds for a name.\<close>

definition pri :: "'n numbers \<Rightarrow> ('n, 'w, 'm) priorities \<Rightarrow> string \<Rightarrow> 'n" where
  "pri nums pr x = (case pr x of None \<Rightarrow> index_number nums 1000 | Some p \<Rightarrow> fst p)"

definition task_at :: "('n, 'w, 'm) priorities \<Rightarrow> string \<Rightarrow> ('w, 'm) task option" where
  "task_at pr x = map_option snd (pr x)"

text \<open>A name is settled when, its priority being below the sentinel, each of its known
  requirements is at or below that priority less a hundredth.\<close>

definition settled :: "('n::linorder) numbers \<Rightarrow> ('n, 'w, 'm) priorities \<Rightarrow> string \<Rightarrow> bool" where
  "settled nums pr u =
     (case pr u of
        None \<Rightarrow> True
      | Some p \<Rightarrow>
          fst p < index_number nums 1000 \<longrightarrow>
          (\<forall>v \<in> set (after_list (snd p)).
             v \<in> dom pr \<longrightarrow> pri nums pr v \<le> minus_hundredth nums (fst p)))"

text \<open>One state of the priorities comes after another: the same tasks, no priority higher,
  and every name that was settled or whose priority changed is settled.\<close>

definition lowered ::
  "('n::linorder) numbers \<Rightarrow> ('n, 'w, 'm) priorities \<Rightarrow> ('n, 'w, 'm) priorities \<Rightarrow> bool"
where
  "lowered nums pr pr' =
     (task_at pr' = task_at pr
      \<and> (\<forall>x. pri nums pr' x \<le> pri nums pr x)
      \<and> (\<forall>u. settled nums pr u \<or> pri nums pr' u \<noteq> pri nums pr u \<longrightarrow> settled nums pr' u))"

text \<open>The map is closed when every requirement of its tasks is one of its names.\<close>

definition closed :: "('n, 'w, 'm) priorities \<Rightarrow> bool" where
  "closed pr = (\<forall>u tk. task_at pr u = Some tk \<longrightarrow> set (after_list tk) \<subseteq> dom pr)"

text \<open>The priorities the calls can store: the number of a routing index less a hundredth
  some times, fewer times than the depth allowed.\<close>

definition reached :: "'n numbers \<Rightarrow> nat \<Rightarrow> nat \<Rightarrow> 'n set" where
  "reached nums len depth =
     {((minus_hundredth nums) ^^ k) (index_number nums i) | i k. i < len \<and> k < depth}"

text \<open>Position in a list: \<open>d\<close> stands strictly before \<open>t\<close>.\<close>

definition before :: "'a list \<Rightarrow> 'a \<Rightarrow> 'a \<Rightarrow> bool" where
  "before xs d t = (\<exists>i j. i < j \<and> j < length xs \<and> xs ! i = d \<and> xs ! j = t)"

section \<open>Combat strategy\<close>

text \<open>
  libram's Macro class is a library outside this repository: the operations the source
  calls on it are parameters of the model.  \<open>mstep r ms\<close> is \<open>r.step(...ms)\<close>,
  \<open>mif r c t\<close> is \<open>r.if_(c, t)\<close> and \<open>mtext\<close> is \<open>toString\<close>.
\<close>

record 'm macro_lib =
  mnew :: 'm
  mstep :: "'m \<Rightarrow> 'm list \<Rightarrow> 'm"
  mif :: "'m \<Rightarrow> string \<Rightarrow> string \<Rightarrow> 'm"
  mitem :: "'m \<Rightarrow> item \<Rightarrow> 'm"
  mskill :: "'m \<Rightarrow> skill \<Rightarrow> 'm"
  mtext :: "'m \<Rightarrow> string"

text \<open>\<open>Map.set\<close> on an association list: an existing key keeps its place.\<close>

fun map_set :: "'k \<Rightarrow> 'v \<Rightarrow> ('k \<times> 'v) list \<Rightarrow> ('k \<times> 'v) list" where
  "map_set k v [] = [(k, v)]"
| "map_set k v (p # ps) = (if fst p = k then (k, v) # ps else p # map_set k v ps)"

definition undelay :: "('w, 'm) delayed_macro \<Rightarrow> 'w \<Rightarrow> 'm" where
  "undelay macro w = (case macro of Literal m \<Rightarrow> m | Deferred f \<Rightarrow> f w)"

definition new_array ::
  "('w, 'm) delayed_macro list \<Rightarrow> ('w, 'm) heap \<Rightarrow> ref \<times> ('w, 'm) heap"
where
  "new_array xs h =
     (next_ref h, h\<lparr>arrays := (arrays h)(next_ref h := xs), next_ref := Suc (next_ref h)\<rparr>)"

text \<open>The constructor allocates the two maps.\<close>

definition new_CombatStrategy :: "('w, 'm) heap \<Rightarrow> ('w, 'm) combat_strategy \<times> ('w, 'm) heap" where
  "new_CombatStrategy h =
     (\<lparr>starting_macro = None, default_macro = None, macros = next_ref h,
       default_action = None, actions = Suc (next_ref h)\<rparr>,
      h\<lparr>macro_maps := (macro_maps h)(next_ref h := []),
        action_maps := (action_maps h)(Suc (next_ref h) := []),
        next_ref := Suc (Suc (next_ref h))\<rparr>)"

text \<open>\<open>prepend ? xs.unshift(macro) : xs.push(macro)\<close>, on the array at address \<open>r\<close>.\<close>

definition array_add ::
  "bool \<Rightarrow> ('w, 'm) delayed_macro \<Rightarrow> ref \<Rightarrow> ('w, 'm) heap \<Rightarrow> ('w, 'm) heap"
where
  "array_add prepend macro r h =
     h\<lparr>arrays := (arrays h)(r := (if prepend then macro # arrays h r else arrays h r @ [macro]))\<rparr>"

datatype targets = One monster | Many "monster list"

definition target_list :: "targets \<Rightarrow> monster list" where
  "target_list monsters = (case monsters of One m \<Rightarrow> [m] | Many ms \<Rightarrow> ms)"

text \<open>The body of the loop of \<open>macro\<close> over the monsters.\<close>

definition macro_monster ::
  "('w, 'm) combat_strategy \<Rightarrow> ('w, 'm) delayed_macro \<Rightarrow> bool \<Rightarrow> monster \<Rightarrow>
   ('w, 'm) heap \<Rightarrow> ('w, 'm) heap"
where
  "macro_monster this macro prepend monster h =
     (let h1 = (if map_of (macro_maps h (macros this)) monster = None
                then (let a = new_array [] h
                      in (snd a)\<lparr>macro_maps := (macro_maps (snd a))
                           (macros this := map_set monster (fst a) (macro_maps (snd a) (macros this)))\<rparr>)
                else h)
      in case map_of (macro_maps h1 (macros this)) monster of
           None \<Rightarrow> h1
         | Some r \<Rightarrow> array_add prepend macro r h1)"

definition macro ::
  "('w, 'm) combat_strategy \<Rightarrow> ('w, 'm) delayed_macro \<Rightarrow> targets option \<Rightarrow> bool \<Rightarrow>
   ('w, 'm) heap \<Rightarrow> ('w, 'm) combat_strategy \<times> ('w, 'm) heap"
where
  "macro this m monsters prepend h =
     (case monsters of
        None \<Rightarrow>
          (let st = (case default_macro this of
                       None \<Rightarrow> (let a = new_array [] h
                                in (this\<lparr>default_macro := Some (fst a)\<rparr>, snd a))
                     | Some r \<Rightarrow> (this, h))
           in case default_macro (fst st) of
                None \<Rightarrow> st
              | Some r \<Rightarrow> (fst st, array_add prepend m r (snd st)))
      | Some ms \<Rightarrow> (this, fold (macro_monster this m prepend) (target_list ms) h))"

definition startingMacro ::
  "('w, 'm) combat_strategy \<Rightarrow> ('w, 'm) delayed_macro \<Rightarrow> ('w, 'm) combat_strategy"
where
  "startingMacro this m = this\<lparr>starting_macro := Some m\<rparr>"

definition action_monster ::
  "('w, 'm) combat_strategy \<Rightarrow> string \<Rightarrow> monster \<Rightarrow> ('w, 'm) heap \<Rightarrow> ('w, 'm) heap"
where
  "action_monster this a monster h =
     h\<lparr>action_maps := (action_maps h)
          (actions this := map_set monster a (action_maps h (actions this)))\<rparr>"

definition action ::
  "('w, 'm) combat_strategy \<Rightarrow> string \<Rightarrow> targets option \<Rightarrow> ('w, 'm) heap \<Rightarrow>
   ('w, 'm) combat_strategy \<times> ('w, 'm) heap"
where
  "action this a monsters h =
     (case monsters of
        None \<Rightarrow> (this\<lparr>default_action := Some a\<rparr>, h)
      | Some (One m) \<Rightarrow> (this, action_monster this a m h)
      | Some (Many ms) \<Rightarrow> (this, fold (action_monster this a) ms h))"

text \<open>
  \<open>clone\<close>.  \<open>{ ...this }\<close> copies the fields of the object, so \<open>result\<close> holds the addresses
  of the same two maps as \<open>this\<close>.  Each loop sets, in the map of \<open>result\<close>, the keys of the
  map of \<open>this\<close>: an existing key keeps its place, so the iteration sees each pair once, as
  the fold over the pairs at the start of the loop does.
\<close>

definition clone ::
  "('w, 'm) combat_strategy \<Rightarrow> ('w, 'm) heap \<Rightarrow> ('w, 'm) combat_strategy \<times> ('w, 'm) heap"
where
  "clone this h =
     (let result = this;
          st = (case default_macro result of
                  None \<Rightarrow> (result, h)
                | Some r \<Rightarrow> (let a = new_array (arrays h r) h
                            in (result\<lparr>default_macro := Some (fst a)\<rparr>, snd a)));
          result1 = fst st;
          h2 = fold (\<lambda>pair h'.
                       let a = new_array (arrays h' (snd pair)) h'
                       in (snd a)\<lparr>macro_maps := (macro_maps (snd a))
                            (macros result1 :=
                               map_set (fst pair) (fst a) (macro_maps (snd a) (macros result1)))\<rparr>)
                    (macro_maps (snd st) (macros this)) (snd st);
          h3 = fold (\<lambda>pair h'.
                       h'\<lparr>action_maps := (action_maps h')
                            (actions result1 :=
                               map_set (fst pair) (snd pair) (action_maps h' (actions result1)))\<rparr>)
                    (action_maps h2 (actions this)) h2
      in (result1, h3))"

text \<open>What a strategy holds for a monster: \<open>this.macros.get(monster)\<close>, read through the
  heap, and \<open>this.actions.get(monster)\<close>.\<close>

definition macros_get ::
  "('w, 'm) combat_strategy \<Rightarrow> monster \<Rightarrow> ('w, 'm) heap \<Rightarrow> ('w, 'm) delayed_macro list option"
where
  "macros_get this monster h =
     map_option (arrays h) (map_of (macro_maps h (macros this)) monster)"

definition actions_get ::
  "('w, 'm) combat_strategy \<Rightarrow> monster \<Rightarrow> ('w, 'm) heap \<Rightarrow> string option"
where
  "actions_get this monster h = map_of (action_maps h (actions this)) monster"

subsection \<open>CompressedMacro\<close>

text \<open>The template literal prints the monster's id in decimal.\<close>

function show_nat :: "nat \<Rightarrow> string" where
  "show_nat n =
     (if n < 10 then [''0123456789'' ! n]
      else show_nat (n div 10) @ [''0123456789'' ! (n mod 10)])"
  by pat_completeness auto
termination
  by (relation "measure id") auto

fun join :: "string \<Rightarrow> string list \<Rightarrow> string" where
  "join sep [] = []"
| "join sep [x] = x"
| "join sep (x # y # ys) = x @ sep @ join sep (y # ys)"

text \<open>The components of a CompressedMacro: macro text to monsters, in insertion order.\<close>

type_synonym components = "(string \<times> monster list) list"

text \<open>\<open>add\<close>, from the macro text on.\<close>

definition cm_add_text :: "monster \<Rightarrow> string \<Rightarrow> components \<Rightarrow> components" where
  "cm_add_text monster macro_text components =
     (if length macro_text = 0 then components
      else (case map_of components macro_text of
              None \<Rightarrow> map_set macro_text [monster] components
            | Some monsters \<Rightarrow> map_set macro_text (monsters @ [monster]) components))"

definition cm_add :: "'m macro_lib \<Rightarrow> monster \<Rightarrow> 'm \<Rightarrow> components \<Rightarrow> components" where
  "cm_add lib monster m components = cm_add_text monster (mtext lib m) components"

definition condition :: "monster list \<Rightarrow> string" where
  "condition monsters = join '' || '' (map (\<lambda>mon. ''monsterid '' @ show_nat (monster_id mon)) monsters)"

definition cm_compile :: "'m macro_lib \<Rightarrow> components \<Rightarrow> 'm" where
  "cm_compile lib components =
     fold (\<lambda>c result. mif lib result (condition (snd c)) (fst c)) components (mnew lib)"

subsection \<open>CombatResources\<close>

datatype 'm resource_do = DoItem item | DoSkill skill | DoMacro 'm

record ('w, 'm) combat_resource =
  res_prepare :: "('w \<Rightarrow> error + 'w) option"
  res_do :: "'m resource_do"

type_synonym ('w, 'm) combat_resources = "(string \<times> ('w, 'm) combat_resource) list"

definition provide ::
  "string \<Rightarrow> ('w, 'm) combat_resource option \<Rightarrow> ('w, 'm) combat_resources \<Rightarrow>
   ('w, 'm) combat_resources"
where
  "provide a resource resources =
     (case resource of None \<Rightarrow> resources | Some r \<Rightarrow> map_set a r resources)"

definition getMacro :: "'m macro_lib \<Rightarrow> ('w, 'm) combat_resources \<Rightarrow> string \<Rightarrow> 'm option" where
  "getMacro lib resources a =
     (case map_of resources a of
        None \<Rightarrow> None
      | Some resource \<Rightarrow>
          (case res_do resource of
             DoItem i \<Rightarrow> Some (mitem lib (mnew lib) i)
           | DoSkill s \<Rightarrow> Some (mskill lib (mnew lib) s)
           | DoMacro m \<Rightarrow> Some m))"

subsection \<open>CombatStrategy.compile\<close>

datatype target = AtMonster monster | AtPlace location | Nowhere

type_synonym 'm action_defaults = "string \<rightharpoonup> (target \<Rightarrow> 'm)"

text \<open>\<open>resources.getMacro(action) ?? defaults?.[action]?.(target)\<close>\<close>

definition action_macro ::
  "'m macro_lib \<Rightarrow> ('w, 'm) combat_resources \<Rightarrow> 'm action_defaults option \<Rightarrow> string \<Rightarrow>
   target \<Rightarrow> 'm option"
where
  "action_macro lib resources defaults a tgt =
     (case getMacro lib resources a of
        Some m \<Rightarrow> Some m
      | None \<Rightarrow>
          (case defaults of
             None \<Rightarrow> None
           | Some d \<Rightarrow> (case d a of None \<Rightarrow> None | Some f \<Rightarrow> Some (f tgt))))"

text \<open>The two CompressedMacro blocks that compile builds, before they are compiled.\<close>

definition monster_macros ::
  "'m macro_lib \<Rightarrow> ('w, 'm) combat_strategy \<Rightarrow> 'w \<Rightarrow> ('w, 'm) heap \<Rightarrow> components"
where
  "monster_macros lib this w h =
     fold (\<lambda>pair. cm_add lib (fst pair)
             (mstep lib (mnew lib) (map (\<lambda>d. undelay d w) (arrays h (snd pair)))))
          (macro_maps h (macros this)) []"

definition monster_actions ::
  "'m macro_lib \<Rightarrow> ('w, 'm) combat_strategy \<Rightarrow> ('w, 'm) combat_resources \<Rightarrow>
   'm action_defaults option \<Rightarrow> ('w, 'm) heap \<Rightarrow> components"
where
  "monster_actions lib this resources defaults h =
     fold (\<lambda>pair cm.
             case action_macro lib resources defaults (snd pair) (AtMonster (fst pair)) of
               None \<Rightarrow> cm
             | Some m \<Rightarrow> cm_add lib (fst pair) (mstep lib (mnew lib) [m]) cm)
          (action_maps h (actions this)) []"

text \<open>
  The targets of each block, in the order of the map, each with the text of the macro that
  runs for it (a target whose action resolves to no macro is not in the action block).
\<close>

definition macro_entries ::
  "'m macro_lib \<Rightarrow> ('w, 'm) combat_strategy \<Rightarrow> 'w \<Rightarrow> ('w, 'm) heap \<Rightarrow> (monster \<times> string) list"
where
  "macro_entries lib this w h =
     map (\<lambda>pair. (fst pair,
            mtext lib (mstep lib (mnew lib) (map (\<lambda>d. undelay d w) (arrays h (snd pair))))))
         (macro_maps h (macros this))"

definition action_entries ::
  "'m macro_lib \<Rightarrow> ('w, 'm) combat_strategy \<Rightarrow> ('w, 'm) combat_resources \<Rightarrow>
   'm action_defaults option \<Rightarrow> ('w, 'm) heap \<Rightarrow> (monster \<times> string) list"
where
  "action_entries lib this resources defaults h =
     concat (map (\<lambda>pair.
                    case action_macro lib resources defaults (snd pair) (AtMonster (fst pair)) of
                      None \<Rightarrow> []
                    | Some m \<Rightarrow> [(fst pair, mtext lib (mstep lib (mnew lib) [m]))])
                 (action_maps h (actions this)))"

text \<open>The conditional clauses a CompressedMacro compiles to: guard and body.\<close>

definition clauses :: "components \<Rightarrow> (string \<times> string) list" where
  "clauses cs = map (\<lambda>c. (condition (snd c), fst c)) cs"

definition compile ::
  "'m macro_lib \<Rightarrow> ('w, 'm) combat_strategy \<Rightarrow> ('w, 'm) combat_resources \<Rightarrow>
   'm action_defaults option \<Rightarrow> location option \<Rightarrow> 'w \<Rightarrow> ('w, 'm) heap \<Rightarrow> 'm"
where
  "compile lib this resources defaults loc w h =
     (let result0 = mnew lib;
          result1 = (case starting_macro this of
                       None \<Rightarrow> result0
                     | Some sm \<Rightarrow> mstep lib result0 [undelay sm w]);
          result2 = mstep lib result1 [cm_compile lib (monster_macros lib this w h)];
          result3 = mstep lib result2
                      [cm_compile lib (monster_actions lib this resources defaults h)];
          result4 = (case default_macro this of
                       None \<Rightarrow> result3
                     | Some r \<Rightarrow> mstep lib result3 (map (\<lambda>d. undelay d w) (arrays h r)));
          result5 = (case default_action this of
                       None \<Rightarrow> result4
                     | Some a \<Rightarrow>
                         if a = [] then result4
                         else (case action_macro lib resources defaults a
                                      (case loc of None \<Rightarrow> Nowhere | Some l \<Rightarrow> AtPlace l) of
                                 None \<Rightarrow> result4
                               | Some m \<Rightarrow> mstep lib result4 [m]))
      in result5)"

section \<open>Engine\<close>

text \<open>
  The kolmafia and libram primitives the engine calls, as parameters: each reads the
  world or returns the world it leaves.
\<close>

text \<open>Modelled from the spec: the Outfit class, of which the sources hold only the
  declaration.  The loadout request records what createOutfit hands over: the calls of
  \<open>equip\<close> in order, the avoid list and the skip-defaults flag.\<close>

record outfit_request =
  equip_calls :: "(item + familiar) list"
  avoid :: "item list option"
  skipDefaults :: bool

record ('w, 'm) externals =
  itemAmount :: "item \<Rightarrow> 'w \<Rightarrow> int"
  equippedAmount :: "item \<Rightarrow> 'w \<Rightarrow> int"
  buy :: "item \<Rightarrow> int \<Rightarrow> int \<Rightarrow> 'w \<Rightarrow> 'w"
  retrieveItem :: "item \<Rightarrow> int \<Rightarrow> 'w \<Rightarrow> 'w"
  adv1 :: "location \<Rightarrow> 'w \<Rightarrow> 'w"
  runCombat :: "'w \<Rightarrow> 'w"
  inMultiFight :: "'w \<Rightarrow> bool"
  choiceFollowsFight :: "'w \<Rightarrow> bool"
  runChoice :: "int \<Rightarrow> 'w \<Rightarrow> 'w"
  lastEncounter :: "'w \<Rightarrow> string"
  turnsSpent :: "location \<Rightarrow> 'w \<Rightarrow> int"
  dress_outfit :: "outfit_request \<Rightarrow> 'w \<Rightarrow> 'w"
  save_macro :: "'m \<Rightarrow> 'w \<Rightarrow> 'w"
  setChoices_manager :: "(int \<times> int) list \<Rightarrow> 'w \<Rightarrow> 'w"

record 'm engine_options =
  combat_defaults :: "'m action_defaults option"

text \<open>
  \<open>attempts\<close> is a plain JS object used as a dictionary.  The model holds its own
  properties; a value is a count or, after \<open>++\<close> on something that is no number, NaN.
  The names \<open>Object.prototype\<close> gives every plain object are there for the \<open>in\<close> operator
  and for a read, although the object has no such property of its own.
\<close>

datatype count = Count int | NaN

definition object_prototype_names :: "string list" where
  "object_prototype_names =
     [''constructor'', ''hasOwnProperty'', ''isPrototypeOf'', ''propertyIsEnumerable'',
      ''toLocaleString'', ''toString'', ''valueOf'', ''__proto__'', ''__defineGetter__'',
      ''__defineSetter__'', ''__lookupGetter__'', ''__lookupSetter__'']"

record ('w, 'm) engine =
  tasks :: "('w, 'm) task list"
  options :: "'m engine_options"
  attempts :: "string \<rightharpoonup> count"
  tasks_by_name :: "string \<rightharpoonup> ('w, 'm) task"

text \<open>The constructor (the properties it writes belong to the world and are left out).\<close>

definition new_Engine :: "('w, 'm) task list \<Rightarrow> 'm engine_options \<Rightarrow> ('w, 'm) engine" where
  "new_Engine ts opts =
     \<lparr>tasks = ts, options = opts, attempts = Map.empty,
      tasks_by_name = fold (\<lambda>task m. m(name task \<mapsto> task)) ts Map.empty\<rparr>"

text \<open>The loop of \<open>available\<close> over \<open>task.after\<close>: it throws, returns false, or ends.\<close>

fun after_completed ::
  "('w, 'm) engine \<Rightarrow> ('w, 'm) task \<Rightarrow> string list \<Rightarrow> 'w \<Rightarrow> error + bool"
where
  "after_completed e task [] w = Inr True"
| "after_completed e task (a # as) w =
     (case tasks_by_name e a of
        None \<Rightarrow> Inl (UnknownTaskDependencyOn a (name task))
      | Some after_task \<Rightarrow>
          if \<not> completed after_task w then Inr False
          else after_completed e task as w)"

definition available :: "('w, 'm) engine \<Rightarrow> ('w, 'm) task \<Rightarrow> 'w \<Rightarrow> error + bool" where
  "available e task w =
     (case after_completed e task (after_list task) w of
        Inl err \<Rightarrow> Inl err
      | Inr False \<Rightarrow> Inr False
      | Inr True \<Rightarrow>
          if (case ready task of None \<Rightarrow> False | Some r \<Rightarrow> \<not> r w) then Inr False
          else if completed task w then Inr False
          else Inr True)"

text \<open>A \<open>for\<close> loop over a list whose body may throw.\<close>

fun try_each :: "('a \<Rightarrow> 's \<Rightarrow> error + 's) \<Rightarrow> 'a list \<Rightarrow> 's \<Rightarrow> error + 's" where
  "try_each f [] s = Inr s"
| "try_each f (x # xs) s = (case f x s of Inl e \<Rightarrow> Inl e | Inr s' \<Rightarrow> try_each f xs s')"

text \<open>An optional hook: \<open>task.prepare?.()\<close>.\<close>

definition call_hook :: "('w \<Rightarrow> error + 'w) option \<Rightarrow> 'w \<Rightarrow> error + 'w" where
  "call_hook hook w = (case hook of None \<Rightarrow> Inr w | Some f \<Rightarrow> f w)"

definition acquire_one ::
  "('w, 'm) externals \<Rightarrow> ('w, 'm) task \<Rightarrow> 'w acquire_item \<Rightarrow> 'w \<Rightarrow> error + 'w"
where
  "acquire_one ext task to_get w =
     (let num_needed = (case acq_num to_get of None \<Rightarrow> 1 | Some n \<Rightarrow> n);
          num_have = itemAmount ext (acq_item to_get) w + equippedAmount ext (acq_item to_get) w
      in if num_needed \<le> num_have then Inr w
         else if (case acq_useful to_get of None \<Rightarrow> False | Some u \<Rightarrow> \<not> u w) then Inr w
         else
           (case (case acq_get to_get of
                    Some g \<Rightarrow> g w
                  | None \<Rightarrow>
                      (case acq_price to_get of
                         Some price \<Rightarrow>
                           Inr (buy ext (acq_item to_get) (num_needed - num_have) price w)
                       | None \<Rightarrow> Inr (retrieveItem ext (acq_item to_get) num_needed w))) of
              Inl err \<Rightarrow> Inl err
            | Inr w1 \<Rightarrow>
                if itemAmount ext (acq_item to_get) w1 + equippedAmount ext (acq_item to_get) w1
                     < num_needed
                   \<and> acq_optional to_get \<noteq> Some True
                then Inl (UnableToAcquire (name task) num_needed (acq_item to_get))
                else Inr w1))"

definition acquireItems :: "('w, 'm) externals \<Rightarrow> ('w, 'm) task \<Rightarrow> 'w \<Rightarrow> error + 'w" where
  "acquireItems ext task w =
     try_each (acquire_one ext task) (case acquire task of None \<Rightarrow> [] | Some xs \<Rightarrow> xs) w"

definition createOutfit :: "('w, 'm) task \<Rightarrow> 'w \<Rightarrow> outfit_request" where
  "createOutfit task w =
     (let spec = (case outfit task of
                    None \<Rightarrow> None
                  | Some (Spec sp) \<Rightarrow> Some sp
                  | Some (SpecFn f) \<Rightarrow> Some (f w))
      in case spec of
           None \<Rightarrow> \<lparr>equip_calls = [], avoid = None, skipDefaults = False\<rparr>
         | Some sp \<Rightarrow>
             \<lparr>equip_calls =
                map Inl (case spec_equip sp of None \<Rightarrow> [] | Some xs \<Rightarrow> xs)
                @ (case spec_familiar sp of None \<Rightarrow> [] | Some f \<Rightarrow> [Inr f]),
              avoid = spec_avoid sp,
              skipDefaults = (case spec_skipDefaults sp of None \<Rightarrow> False | Some b \<Rightarrow> b)\<rparr>)"

definition setChoices :: "('w, 'm) externals \<Rightarrow> ('w, 'm) task \<Rightarrow> 'w \<Rightarrow> 'w" where
  "setChoices ext task w =
     setChoices_manager ext
       (map (\<lambda>c. (fst c, (case snd c of Fixed n \<Rightarrow> n | Chosen f \<Rightarrow> f w)))
          (case choices task of None \<Rightarrow> [] | Some cs \<Rightarrow> cs))
       w"

text \<open>\<open>while (inMultiFight()) runCombat();\<close> may run forever: \<open>None\<close> is not returning.\<close>

partial_function (option) multi_fight :: "('w, 'm) externals \<Rightarrow> 'w \<Rightarrow> 'w option" where
  "multi_fight ext w =
     (if inMultiFight ext w then multi_fight ext (runCombat ext w) else Some w)"

declare multi_fight.simps [code]

definition engine_do :: "('w, 'm) externals \<Rightarrow> ('w, 'm) task \<Rightarrow> 'w \<Rightarrow> (error + 'w) option" where
  "engine_do ext task w =
     (case (case do_action task of
              Call f \<Rightarrow> f w
            | AtLocation l \<Rightarrow> Inr (adv1 ext l w)) of
        Inl err \<Rightarrow> Some (Inl err)
      | Inr w1 \<Rightarrow>
          (case multi_fight ext (runCombat ext w1) of
             None \<Rightarrow> None
           | Some w2 \<Rightarrow>
               Some (Inr (if choiceFollowsFight ext w2 then runChoice ext (- 1) w2 else w2))))"

definition wanderingNCs :: "string list" where
  "wanderingNCs =
     [''Wooof! Wooooooof!'', ''Playing Fetch*'', ''A Pound of Cure'', ''Aunts not Ants'',
      ''Bath Time'', ''Beware of Aligator'', ''Delicious Sprouts'', ''Hypnotic Master'',
      ''Lost and Found'', ''Poetic Justice'', ''Summer Days'', ''Teacher'' @ [CHR 0x27] @ ''s Pet'']"

definition lastEncounterWasWanderingNC :: "('w, 'm) externals \<Rightarrow> 'w \<Rightarrow> bool" where
  "lastEncounterWasWanderingNC ext w = (lastEncounter ext w \<in> set wanderingNCs)"

definition shouldRepeatAdv :: "('w, 'm) externals \<Rightarrow> ('w, 'm) task \<Rightarrow> 'w \<Rightarrow> bool" where
  "shouldRepeatAdv ext task w =
     (case do_action task of
        AtLocation l \<Rightarrow> lastEncounterWasWanderingNC ext w
      | Call f \<Rightarrow> False)"

text \<open>\<open>while (this.shouldRepeatAdv(task)) this.do(task);\<close>\<close>

partial_function (option) repeat_adv ::
  "('w, 'm) externals \<Rightarrow> ('w, 'm) task \<Rightarrow> 'w \<Rightarrow> (error + 'w) option"
where
  "repeat_adv ext task w =
     (if shouldRepeatAdv ext task w
      then (case engine_do ext task w of
              None \<Rightarrow> None
            | Some (Inl err) \<Rightarrow> Some (Inl err)
            | Some (Inr w') \<Rightarrow> repeat_adv ext task w')
      else Some (Inr w))"

declare repeat_adv.simps [code]

text \<open>\<open>name in this.attempts\<close>: an own property, or one inherited from the prototype.\<close>

definition in_attempts :: "('w, 'm) engine \<Rightarrow> string \<Rightarrow> bool" where
  "in_attempts e nm = (attempts e nm \<noteq> None \<or> nm \<in> set object_prototype_names)"

text \<open>\<open>this.attempts[name]\<close> as a number: the own value; an inherited property is a function
  or an object, and an absent one is undefined: both are NaN as numbers.\<close>

definition read_attempts :: "('w, 'm) engine \<Rightarrow> string \<Rightarrow> count" where
  "read_attempts e nm = (case attempts e nm of Some c \<Rightarrow> c | None \<Rightarrow> NaN)"

definition increment :: "count \<Rightarrow> count" where
  "increment c = (case c of Count n \<Rightarrow> Count (n + 1) | NaN \<Rightarrow> NaN)"

text \<open>\<open>markAttempt\<close>.  The assignment of \<open>++\<close> makes an own property, but for the name
  \<open>__proto__\<close>, whose setter ignores a number.\<close>

definition markAttempt :: "('w, 'm) engine \<Rightarrow> ('w, 'm) task \<Rightarrow> ('w, 'm) engine" where
  "markAttempt e task =
     (let e1 = (if \<not> in_attempts e (name task)
                then e\<lparr>attempts := (attempts e)(name task \<mapsto> Count 0)\<rparr> else e)
      in if name task = ''__proto__'' then e1
         else e1\<lparr>attempts :=
                   (attempts e1)(name task \<mapsto> increment (read_attempts e1 (name task)))\<rparr>)"

text \<open>The attempts counted so far for a task: none before the first \<open>markAttempt\<close>.\<close>

abbreviation attempts_so_far :: "('w, 'm) engine \<Rightarrow> ('w, 'm) task \<Rightarrow> int" where
  "attempts_so_far e t \<equiv>
     (case attempts e (name t) of None \<Rightarrow> 0 | Some NaN \<Rightarrow> 0 | Some (Count c) \<Rightarrow> c)"

text \<open>\<open>task.limit.message ? ` ${task.limit.message}` : ""\<close>: an empty message is falsy.\<close>

definition failureMessage :: "limit \<Rightarrow> string" where
  "failureMessage l =
     (case message l of None \<Rightarrow> [] | Some m \<Rightarrow> if m = [] then [] else '' '' @ m)"

text \<open>\<open>checkLimits\<close> returns the error it throws, if any.  A limit of 0 is falsy, and
  \<open>>=\<close> is false on NaN.\<close>

definition checkLimits ::
  "('w, 'm) externals \<Rightarrow> ('w, 'm) engine \<Rightarrow> ('w, 'm) task \<Rightarrow> 'w \<Rightarrow> error option"
where
  "checkLimits ext e task w =
     (case limit task of
        None \<Rightarrow> None
      | Some l \<Rightarrow>
          (let exceeded = (\<lambda>bound. bound \<noteq> 0 \<and>
                             (case read_attempts e (name task) of
                                NaN \<Rightarrow> False
                              | Count c \<Rightarrow> c \<ge> bound))
           in case (case tries l of
                      None \<Rightarrow> None
                    | Some n \<Rightarrow>
                        if exceeded n then Some (TriesExceeded (name task) n (failureMessage l))
                        else None) of
                Some err \<Rightarrow> Some err
              | None \<Rightarrow>
                  (case (case soft l of
                           None \<Rightarrow> None
                         | Some n \<Rightarrow>
                             if exceeded n then Some (SoftExceeded (name task) n (failureMessage l))
                             else None) of
                     Some err \<Rightarrow> Some err
                   | None \<Rightarrow>
                       (case turns l of
                          None \<Rightarrow> None
                        | Some n \<Rightarrow>
                            if n \<noteq> 0 \<and>
                               (case do_action task of
                                  AtLocation loc \<Rightarrow> turnsSpent ext loc w \<ge> n
                                | Call f \<Rightarrow> False)
                            then Some (TurnsExceeded (name task) n (failureMessage l))
                            else None))))"

text \<open>
  The steps of \<open>execute\<close> up to \<open>post\<close>.  \<open>customize\<close> does nothing by default, so the
  resources stay empty and no resource is prepared.
\<close>

definition execute_steps ::
  "('w, 'm) externals \<Rightarrow> 'm macro_lib \<Rightarrow> ('w, 'm) engine \<Rightarrow> ('w, 'm) task \<Rightarrow>
   ('w, 'm) heap \<Rightarrow> 'w \<Rightarrow> (error + 'w) option"
where
  "execute_steps ext lib e task h w =
     (case acquireItems ext task w of
        Inl err \<Rightarrow> Some (Inl err)
      | Inr w1 \<Rightarrow>
          (let tc = (case combat task of
                       Some c \<Rightarrow> (c, h)
                     | None \<Rightarrow> new_CombatStrategy h);
               task_outfit = createOutfit task w1;
               task_resources = [];
               w2 = dress_outfit ext task_outfit w1;
               m = compile lib (fst tc) task_resources (combat_defaults (options e))
                     (case do_action task of AtLocation l \<Rightarrow> Some l | Call f \<Rightarrow> None)
                     w2 (snd tc);
               w3 = save_macro ext m w2;
               w4 = setChoices ext task w3
           in case try_each (\<lambda>resource. call_hook (res_prepare resource))
                     (map snd task_resources) w4 of
                Inl err \<Rightarrow> Some (Inl err)
              | Inr w5 \<Rightarrow>
                  (case call_hook (prepare task) w5 of
                     Inl err \<Rightarrow> Some (Inl err)
                   | Inr w6 \<Rightarrow>
                       (case engine_do ext task w6 of
                          None \<Rightarrow> None
                        | Some (Inl err) \<Rightarrow> Some (Inl err)
                        | Some (Inr w7) \<Rightarrow>
                            (case repeat_adv ext task w7 of
                               None \<Rightarrow> None
                             | Some (Inl err) \<Rightarrow> Some (Inl err)
                             | Some (Inr w8) \<Rightarrow> Some (call_hook (post task) w8))))))"

text \<open>
  \<open>execute\<close> returns the engine and the world it leaves, and the error it throws if any;
  \<open>None\<close> when it does not return.  An error before \<open>markAttempt\<close> leaves the engine as
  it was; the world is the one of the call's start (the model does not follow the world
  of a step that throws).
\<close>

definition execute ::
  "('w, 'm) externals \<Rightarrow> 'm macro_lib \<Rightarrow> ('w, 'm) engine \<Rightarrow> ('w, 'm) task \<Rightarrow>
   ('w, 'm) heap \<Rightarrow> 'w \<Rightarrow> (('w, 'm) engine \<times> 'w \<times> error option) option"
where
  "execute ext lib e task h w =
     (case execute_steps ext lib e task h w of
        None \<Rightarrow> None
      | Some (Inl err) \<Rightarrow> Some (e, w, Some err)
      | Some (Inr w') \<Rightarrow>
          (let e' = markAttempt e task
           in if \<not> completed task w' then Some (e', w', checkLimits ext e' task w')
              else Some (e', w', None)))"

text \<open>The host calls \<open>execute\<close> on a task again and again: the outcomes of the first
  \<open>k\<close> calls, each starting from the engine and the world the previous one left.\<close>

fun execute_times ::
  "nat \<Rightarrow> ('w, 'm) externals \<Rightarrow> 'm macro_lib \<Rightarrow> ('w, 'm) engine \<Rightarrow> ('w, 'm) task \<Rightarrow>
   ('w, 'm) heap \<Rightarrow> 'w \<Rightarrow> (('w, 'm) engine \<times> 'w \<times> error option) list option"
where
  "execute_times 0 ext lib e task h w = Some []"
| "execute_times (Suc k) ext lib e task h w =
     (case execute ext lib e task h w of
        None \<Rightarrow> None
      | Some r \<Rightarrow>
          (case execute_times k ext lib (fst r) task h (fst (snd r)) of
             None \<Rightarrow> None
           | Some rs \<Rightarrow> Some (r # rs)))"

section \<open>Example inputs\<close>

text \<open>A task with a name, dependencies and a completion test, and nothing else.\<close>

definition plain_task :: "string \<Rightarrow> string list option \<Rightarrow> ('w \<Rightarrow> bool) \<Rightarrow> ('w, 'm) task" where
  "plain_task nm aft done =
     \<lparr>name = nm, after = aft, ready = None, completed = done, prepare = None,
      do_action = Call Inr, post = None, acquire = None, choices = None, limit = None,
      outfit = None, combat = None\<rparr>"

text \<open>Two tasks of one quest; the world is the list of the names of the completed tasks.\<close>

definition ex_a :: "(string list, string list) task" where
  "ex_a = plain_task ''Q1/a'' None (\<lambda>w. ''Q1/a'' \<in> set w)"

definition ex_b :: "(string list, string list) task" where
  "ex_b = plain_task ''Q1/b'' (Some [''Q1/a'']) (\<lambda>w. ''Q1/b'' \<in> set w)"

text \<open>A world in which every primitive leaves things as they are, a Macro that is the
  list of its steps, and a heap with no object.\<close>

definition ex_ext :: "(string list, string list) externals" where
  "ex_ext =
     \<lparr>itemAmount = (\<lambda>i w. 0), equippedAmount = (\<lambda>i w. 0), buy = (\<lambda>i n p w. w),
      retrieveItem = (\<lambda>i n w. w), adv1 = (\<lambda>l w. w), runCombat = (\<lambda>w. w),
      inMultiFight = (\<lambda>w. False), choiceFollowsFight = (\<lambda>w. False),
      runChoice = (\<lambda>n w. w), lastEncounter = (\<lambda>w. []), turnsSpent = (\<lambda>l w. 0),
      dress_outfit = (\<lambda>out w. w), save_macro = (\<lambda>m w. w),
      setChoices_manager = (\<lambda>cs w. w)\<rparr>"

definition ex_lib :: "string list macro_lib" where
  "ex_lib =
     \<lparr>mnew = [],
      mstep = (\<lambda>r ms. r @ filter (\<lambda>s. s \<noteq> []) (concat ms)),
      mif = (\<lambda>r c t. r @ [''if '' @ c, t, ''endif'']),
      mitem = (\<lambda>r i. case i of Item x \<Rightarrow> r @ [''use '' @ x]),
      mskill = (\<lambda>r sk. case sk of Skill x \<Rightarrow> r @ [''skill '' @ x]),
      mtext = join '';''\<rparr>"

definition ex_heap :: "(string list, string list) heap" where
  "ex_heap = \<lparr>arrays = (\<lambda>r. []), macro_maps = (\<lambda>r. []), action_maps = (\<lambda>r. []), next_ref = 0\<rparr>"

text \<open>A task with \<open>limit: { tries: 3 }\<close> that never completes, and one that is complete.\<close>

definition ex_never :: "(string list, string list) task" where
  "ex_never =
     (plain_task ''Q1/never'' None (\<lambda>w. False))
       \<lparr>limit := Some \<lparr>tries = Some 3, turns = None, soft = None, message = None\<rparr>\<rparr>"

definition ex_done :: "(string list, string list) task" where
  "ex_done =
     (plain_task ''Q1/done'' None (\<lambda>w. True))
       \<lparr>limit := Some \<lparr>tries = Some 1, turns = None, soft = None, message = None\<rparr>\<rparr>"

text \<open>A task with \<open>limit: { tries: 1 }\<close> that needs an item the world never yields, and
  one named as a property of \<open>Object.prototype\<close>; neither ever completes.\<close>

definition ex_unobtainable :: "(string list, string list) task" where
  "ex_unobtainable =
     (plain_task ''Q1/get'' None (\<lambda>w. False))
       \<lparr>acquire := Some [\<lparr>acq_item = Item ''key'', acq_num = None, acq_price = None,
                           acq_useful = None, acq_optional = None, acq_get = None\<rparr>],
        limit := Some \<lparr>tries = Some 1, turns = None, soft = None, message = None\<rparr>\<rparr>"

definition ex_constructor :: "(string list, string list) task" where
  "ex_constructor =
     (plain_task ''constructor'' None (\<lambda>w. False))
       \<lparr>limit := Some \<lparr>tries = Some 1, turns = None, soft = None, message = None\<rparr>\<rparr>"

text \<open>A strategy built through its methods: three monsters with the same macro, one
  with another, one with an empty macro; and an action for three monsters.\<close>

definition ex_strategy ::
  "(string list, string list) combat_strategy \<times> (string list, string list) heap"
where
  "ex_strategy =
     (let s0 = new_CombatStrategy ex_heap;
          s1 = macro (fst s0) (Literal [''attack''])
                 (Some (Many [Monster ''crate'' 1, Monster ''rat'' 2])) False (snd s0);
          s2 = macro (fst s1) (Literal [''skill Saucestorm''])
                 (Some (One (Monster ''bat'' 4))) False (snd s1);
          s3 = macro (fst s2) (Literal [''attack''])
                 (Some (One (Monster ''goblin'' 3))) False (snd s2);
          s4 = macro (fst s3) (Literal []) (Some (One (Monster ''ghost'' 5))) False (snd s3);
          s5 = action (fst s4) ''banish''
                 (Some (Many [Monster ''crate'' 1, Monster ''bat'' 4, Monster ''ghost'' 5]))
                 (snd s4)
      in s5)"

definition ex_defaults :: "string list action_defaults" where
  "ex_defaults = [''banish'' \<mapsto> (\<lambda>tgt. [''skill Snokebomb''])]"

text \<open>A strategy with one macro for one monster; its clone; and the clone after a macro
  was added to it for that monster, and after an action was set on it.\<close>

definition ex_original ::
  "(string list, string list) combat_strategy \<times> (string list, string list) heap"
where
  "ex_original =
     (let s0 = new_CombatStrategy ex_heap
      in macro (fst s0) (Literal [''attack'']) (Some (One (Monster ''crate'' 1))) False (snd s0))"

definition ex_cloned ::
  "(string list, string list) combat_strategy \<times> (string list, string list) heap"
where
  "ex_cloned = clone (fst ex_original) (snd ex_original)"

definition ex_clone_macro ::
  "(string list, string list) combat_strategy \<times> (string list, string list) heap"
where
  "ex_clone_macro =
     macro (fst ex_cloned) (Literal [''skill Saucestorm''])
       (Some (One (Monster ''crate'' 1))) False (snd ex_cloned)"

definition ex_clone_action ::
  "(string list, string list) combat_strategy \<times> (string list, string list) heap"
where
  "ex_clone_action =
     action (fst ex_cloned) ''banish'' (Some (One (Monster ''crate'' 1))) (snd ex_cloned)"

text \<open>Quests Q1 (tasks a, b) and Q2 (task c) over a store of three task objects; b
  names a and, across quests, c.  In the second store a names a task that does not exist.\<close>

definition ex_store :: "(string list, string list) task_store" where
  "ex_store =
     (\<lambda>r. plain_task [] None (\<lambda>w. False))
       (0 := plain_task ''a'' None (\<lambda>w. False),
        1 := plain_task ''b'' (Some [''a'', ''Q2/c'']) (\<lambda>w. False),
        2 := plain_task ''c'' None (\<lambda>w. False))"

definition ex_store_unknown :: "(string list, string list) task_store" where
  "ex_store_unknown = ex_store(0 := plain_task ''a'' (Some [''z'']) (\<lambda>w. False))"

definition ex_quests :: "quest list" where
  "ex_quests =
     [\<lparr>quest_name = ''Q1'', quest_tasks = [0, 1]\<rparr>, \<lparr>quest_name = ''Q2'', quest_tasks = [2]\<rparr>]"

text \<open>A flat task list in which Q2/c depends on Q1/a and nothing names Q1/b.\<close>

definition ex_tasks :: "(string list, string list) task list" where
  "ex_tasks =
     [plain_task ''Q2/c'' (Some [''Q1/a'']) (\<lambda>w. False),
      plain_task ''Q1/b'' None (\<lambda>w. False),
      plain_task ''Q1/a'' None (\<lambda>w. False)]"

text \<open>The same task object in two quests, and twice in one quest.\<close>

definition ex_shared_quests :: "quest list" where
  "ex_shared_quests =
     [\<lparr>quest_name = ''Q1'', quest_tasks = [0]\<rparr>, \<lparr>quest_name = ''Q2'', quest_tasks = [0]\<rparr>]"

definition ex_repeated_quests :: "quest list" where
  "ex_repeated_quests = [\<lparr>quest_name = ''Q1'', quest_tasks = [0, 2, 0]\<rparr>]"

section \<open>Engine.available\<close>

lemma after_completed_known:
  "\<forall>a \<in> set as. tasks_by_name e a \<noteq> None \<Longrightarrow>
   after_completed e t as w = Inr (\<forall>a \<in> set as. \<exists>d. tasks_by_name e a = Some d \<and> completed d w)"
  by (induction as) (auto split: option.splits)

lemma fold_by_name_dom:
  "dom (fold (\<lambda>task m. m(name task \<mapsto> task)) ts m0) = dom m0 \<union> name ` set ts"
  by (induction ts arbitrary: m0) auto

lemma fold_by_name_distinct:
  "distinct (map name ts) \<Longrightarrow>
   fold (\<lambda>task m. m(name task \<mapsto> task)) ts m0 a =
     (case find (\<lambda>t. name t = a) ts of Some t \<Rightarrow> Some t | None \<Rightarrow> m0 a)"
proof (induction ts arbitrary: m0)
  case Nil
  then show ?case by simp
next
  case (Cons t ts)
  have "find (\<lambda>t. name t = a) ts = None" if "name t = a"
  proof -
    have "name t \<notin> name ` set ts" using Cons.prems by simp
    then have "\<forall>x \<in> set ts. name x \<noteq> a" unfolding that[symmetric] by (metis imageI)
    then show ?thesis by (simp add: find_None_iff)
  qed
  then show ?case using Cons by (auto split: option.splits)
qed

lemma tasks_by_name_distinct:
  assumes "distinct (map name ts)"
  shows "tasks_by_name (new_Engine ts opts) a = Some d \<longleftrightarrow> d \<in> set ts \<and> name d = a"
proof -
  have *: "tasks_by_name (new_Engine ts opts) a = find (\<lambda>t. name t = a) ts"
    using fold_by_name_distinct[OF assms, of Map.empty a]
    by (simp add: new_Engine_def split: option.splits)
  show ?thesis
  proof
    assume "tasks_by_name (new_Engine ts opts) a = Some d"
    then show "d \<in> set ts \<and> name d = a" unfolding * by (auto simp: find_Some_iff)
  next
    assume h: "d \<in> set ts \<and> name d = a"
    then obtain d' where d': "find (\<lambda>t. name t = a) ts = Some d'"
      by (cases "find (\<lambda>t. name t = a) ts") (auto simp: find_None_iff)
    then have "d' \<in> set ts" "name d' = a" by (auto simp: find_Some_iff)
    with h assms have "d' = d" by (auto simp: distinct_map inj_on_def)
    with d' show "tasks_by_name (new_Engine ts opts) a = Some d" unfolding * by simp
  qed
qed

text \<open>
  C1: for a task whose every \<open>after\<close> entry names a task of the engine's list,
  \<open>available\<close> returns true exactly when every task named in \<open>after\<close> reports completed
  (the task the engine finds under that name; with unique names, every task of the list
  with that name), \<open>ready\<close> is absent or true, and the task is not completed; in
  particular it returns false for a completed task.
\<close>

theorem available_iff:
  assumes known: "set (after_list t) \<subseteq> name ` set ts"
  shows "available (new_Engine ts opts) t w =
           Inr ((\<forall>a \<in> set (after_list t).
                   \<exists>d. tasks_by_name (new_Engine ts opts) a = Some d \<and> completed d w)
                \<and> (case ready t of None \<Rightarrow> True | Some r \<Rightarrow> r w)
                \<and> \<not> completed t w)
         \<and> (distinct (map name ts) \<longrightarrow>
              available (new_Engine ts opts) t w =
                Inr ((\<forall>d \<in> set ts. name d \<in> set (after_list t) \<longrightarrow> completed d w)
                     \<and> (case ready t of None \<Rightarrow> True | Some r \<Rightarrow> r w)
                     \<and> \<not> completed t w))
         \<and> (completed t w \<longrightarrow> available (new_Engine ts opts) t w = Inr False)"
proof -
  let ?e = "new_Engine ts opts"
  have dom: "dom (tasks_by_name ?e) = name ` set ts"
    by (simp add: new_Engine_def fold_by_name_dom)
  have "\<forall>a \<in> set (after_list t). tasks_by_name ?e a \<noteq> None"
    using known dom by blast
  then have loop: "after_completed ?e t (after_list t) w =
      Inr (\<forall>a \<in> set (after_list t). \<exists>d. tasks_by_name ?e a = Some d \<and> completed d w)"
    by (rule after_completed_known)
  have main: "available ?e t w =
           Inr ((\<forall>a \<in> set (after_list t). \<exists>d. tasks_by_name ?e a = Some d \<and> completed d w)
                \<and> (case ready t of None \<Rightarrow> True | Some r \<Rightarrow> r w)
                \<and> \<not> completed t w)"
    unfolding available_def loop by (auto split: option.splits bool.splits)
  have dist: "(\<forall>a \<in> set (after_list t). \<exists>d. tasks_by_name ?e a = Some d \<and> completed d w)
       \<longleftrightarrow> (\<forall>d \<in> set ts. name d \<in> set (after_list t) \<longrightarrow> completed d w)"
    if "distinct (map name ts)"
  proof
    assume l: "\<forall>a \<in> set (after_list t). \<exists>d. tasks_by_name ?e a = Some d \<and> completed d w"
    show "\<forall>d \<in> set ts. name d \<in> set (after_list t) \<longrightarrow> completed d w"
    proof (intro ballI impI)
      fix d assume d: "d \<in> set ts" "name d \<in> set (after_list t)"
      then obtain d' where "tasks_by_name ?e (name d) = Some d'" "completed d' w" using l by blast
      moreover have "tasks_by_name ?e (name d) = Some d"
        using tasks_by_name_distinct[OF that] d by blast
      ultimately show "completed d w" by simp
    qed
  next
    assume r: "\<forall>d \<in> set ts. name d \<in> set (after_list t) \<longrightarrow> completed d w"
    show "\<forall>a \<in> set (after_list t). \<exists>d. tasks_by_name ?e a = Some d \<and> completed d w"
    proof
      fix a assume a: "a \<in> set (after_list t)"
      then obtain d where d: "d \<in> set ts" "name d = a" using known by blast
      then have "tasks_by_name ?e a = Some d" using tasks_by_name_distinct[OF that] by blast
      moreover have "completed d w" using r d a by blast
      ultimately show "\<exists>d. tasks_by_name ?e a = Some d \<and> completed d w" by blast
    qed
  qed
  show ?thesis using main dist by auto
qed

theorem available_iff_witness:
  "set (after_list ex_b) \<subseteq> name ` set [ex_a, ex_b]
   \<and> available (new_Engine [ex_a, ex_b] \<lparr>combat_defaults = None\<rparr>) ex_b [''Q1/a''] = Inr True
   \<and> available (new_Engine [ex_a, ex_b] \<lparr>combat_defaults = None\<rparr>) ex_b [] = Inr False
   \<and> available (new_Engine [ex_a, ex_b] \<lparr>combat_defaults = None\<rparr>) ex_a [''Q1/a''] = Inr False"
  using available_iff[of ex_b "[ex_a, ex_b]" "\<lparr>combat_defaults = None\<rparr>" "[''Q1/a'']"]
        available_iff[of ex_b "[ex_a, ex_b]" "\<lparr>combat_defaults = None\<rparr>" "[]"]
        available_iff[of ex_a "[ex_a, ex_b]" "\<lparr>combat_defaults = None\<rparr>" "[''Q1/a'']"]
  by (simp add: ex_a_def ex_b_def plain_task_def after_list_def new_Engine_def)

section \<open>Engine.execute and the limits\<close>

lemma proto_not_plain: "nm \<notin> set object_prototype_names \<Longrightarrow> nm \<noteq> ''__proto__''"
  by (auto simp: object_prototype_names_def)

lemma attempts_markAttempt:
  assumes "name t \<notin> set object_prototype_names" "attempts e (name t) \<noteq> Some NaN"
  shows "attempts (markAttempt e t) (name t) = Some (Count (attempts_so_far e t + 1))"
proof (cases "attempts e (name t)")
  case None
  then show ?thesis
    using assms(1) proto_not_plain[OF assms(1)]
    by (simp add: markAttempt_def in_attempts_def read_attempts_def increment_def)
next
  case (Some c)
  then obtain n where "c = Count n" using assms(2) by (cases c) auto
  then show ?thesis
    using Some proto_not_plain[OF assms(1)]
    by (simp add: markAttempt_def in_attempts_def read_attempts_def increment_def)
qed

lemma options_markAttempt: "options (markAttempt e t) = options e"
  by (simp add: markAttempt_def Let_def)

lemma checkLimits_tries:
  assumes "limit t = Some l" "tries l = Some n" "1 \<le> n"
  shows "attempts e (name t) = Some (Count c) \<Longrightarrow> n \<le> c \<Longrightarrow>
           checkLimits ext e t w = Some (TriesExceeded (name t) n (failureMessage l))"
    and "attempts e (name t) = Some (Count c) \<Longrightarrow> c < n \<Longrightarrow> soft l = None \<Longrightarrow>
           turns l = None \<Longrightarrow> checkLimits ext e t w = None"
    and "attempts e (name t) = Some (Count c) \<Longrightarrow> c < n \<Longrightarrow>
           checkLimits ext e t w \<noteq> Some (TriesExceeded (name t) n' m)"
  using assms
  by (auto simp: checkLimits_def read_attempts_def Let_def split: option.splits if_splits)

lemma execute_not_completed:
  assumes "execute_steps ext lib e t h w = Some (Inr w')" "\<not> completed t w'"
  shows "execute ext lib e t h w = Some (markAttempt e t, w', checkLimits ext (markAttempt e t) t w')"
  using assms by (simp add: execute_def Let_def)

lemma execute_completed:
  assumes "execute_steps ext lib e t h w = Some (Inr w')" "completed t w'"
  shows "execute ext lib e t h w = Some (markAttempt e t, w', None)"
  using assms by (simp add: execute_def Let_def)

lemma execute_steps_options:
  assumes "options e' = options e"
  shows "execute_steps ext lib e' t h w = execute_steps ext lib e t h w"
  unfolding execute_steps_def assms by (rule refl)

lemma execute_times_never:
  assumes lim: "limit t = Some l" "tries l = Some n" "1 \<le> n" "soft l = None" "turns l = None"
    and steps: "\<And>w. \<exists>w'. execute_steps ext lib e0 t h w = Some (Inr w')"
    and never: "\<And>w. \<not> completed t w"
    and plain: "name t \<notin> set object_prototype_names"
  shows "options e = options e0 \<Longrightarrow> attempts e (name t) \<noteq> Some NaN \<Longrightarrow>
         \<exists>rs. execute_times k ext lib e t h w = Some rs \<and> length rs = k \<and>
           (\<forall>j < k. attempts (fst (rs ! j)) (name t) = Some (Count (attempts_so_far e t + int j + 1)) \<and>
                    snd (snd (rs ! j)) =
                      (if n \<le> attempts_so_far e t + int j + 1
                       then Some (TriesExceeded (name t) n (failureMessage l)) else None))"
proof (induction k arbitrary: e w)
  case 0
  then show ?case by simp
next
  case (Suc k)
  obtain w' where w': "execute_steps ext lib e t h w = Some (Inr w')"
    using steps[of w] execute_steps_options[OF Suc.prems(1)] by metis
  let ?e = "markAttempt e t"
  have att: "attempts ?e (name t) = Some (Count (attempts_so_far e t + 1))"
    using plain Suc.prems(2) by (rule attempts_markAttempt)
  have ex: "execute ext lib e t h w = Some (?e, w', checkLimits ext ?e t w')"
    using execute_not_completed[OF w' never] .
  have cl: "checkLimits ext ?e t w' =
      (if n \<le> attempts_so_far e t + 1 then Some (TriesExceeded (name t) n (failureMessage l)) else None)"
    using checkLimits_tries(1)[OF lim(1-3) att] checkLimits_tries(2)[OF lim(1-3) att _ lim(4,5)]
    by (cases "n \<le> attempts_so_far e t + 1") auto
  have o: "options ?e = options e0" using Suc.prems(1) by (simp add: options_markAttempt)
  have nn: "attempts ?e (name t) \<noteq> Some NaN" using att by simp
  from Suc.IH[OF o nn, of w'] obtain rs where rs:
    "execute_times k ext lib ?e t h w' = Some rs" "length rs = k"
    "\<forall>j < k. attempts (fst (rs ! j)) (name t) = Some (Count (attempts_so_far ?e t + int j + 1)) \<and>
                    snd (snd (rs ! j)) =
                      (if n \<le> attempts_so_far ?e t + int j + 1
                       then Some (TriesExceeded (name t) n (failureMessage l)) else None)"
    by blast
  have cnt: "attempts_so_far ?e t = attempts_so_far e t + 1" using att by simp
  let ?r = "(?e, w', checkLimits ext ?e t w')"
  have run: "execute_times (Suc k) ext lib e t h w = Some (?r # rs)"
    using ex rs(1) by simp
  have "\<forall>j < Suc k. attempts (fst ((?r # rs) ! j)) (name t) = Some (Count (attempts_so_far e t + int j + 1)) \<and>
                    snd (snd ((?r # rs) ! j)) =
                      (if n \<le> attempts_so_far e t + int j + 1
                       then Some (TriesExceeded (name t) n (failureMessage l)) else None)"
  proof (intro allI impI)
    fix j assume j: "j < Suc k"
    show "attempts (fst ((?r # rs) ! j)) (name t) = Some (Count (attempts_so_far e t + int j + 1)) \<and>
                    snd (snd ((?r # rs) ! j)) =
                      (if n \<le> attempts_so_far e t + int j + 1
                       then Some (TriesExceeded (name t) n (failureMessage l)) else None)"
    proof (cases j)
      case 0
      then show ?thesis using att cl by simp
    next
      case (Suc j')
      then have "j' < k" using j by simp
      with rs(3) have "attempts (fst (rs ! j')) (name t) = Some (Count (attempts_so_far ?e t + int j' + 1)) \<and>
                    snd (snd (rs ! j')) =
                      (if n \<le> attempts_so_far ?e t + int j' + 1
                       then Some (TriesExceeded (name t) n (failureMessage l)) else None)"
        by blast
      then show ?thesis using Suc cnt by (simp add: algebra_simps)
    qed
  qed
  then show ?case using run rs(2) by auto
qed


text \<open>
  C3, as amended: for a task with \<open>limit: { tries: n }\<close>, \<open>n \<ge> 1\<close>, whose name is not a
  property that \<open>Object.prototype\<close> gives the attempts object, every call of \<open>execute\<close> whose
  steps before the bookkeeping return normally and that leaves the task not completed
  increments the attempt counter, and throws the tries-exceeded error exactly when the
  counter has reached \<open>n\<close> (with no other bound set, nothing is thrown before).  When those
  steps return on every call and the task never completes, on a fresh engine, the calls
  number \<open>1\<close> to \<open>n - 1\<close> return normally and the call number \<open>n\<close> throws (as any later call
  does).  When the task is completed at the end of \<open>execute\<close>, no limit is checked and
  nothing is thrown, whatever the name and the attempt count.
\<close>

theorem execute_tries_limit:
  "(limit t = Some l \<and> tries l = Some n \<and> 1 \<le> n \<and>
    name t \<notin> set object_prototype_names \<and> attempts e (name t) \<noteq> Some NaN \<longrightarrow>
      (\<forall>w'. execute_steps ext lib e t h w = Some (Inr w') \<and> \<not> completed t w' \<longrightarrow>
         (\<exists>r. execute ext lib e t h w = Some (markAttempt e t, w', r) \<and>
              attempts (markAttempt e t) (name t) = Some (Count (attempts_so_far e t + 1)) \<and>
              (r = Some (TriesExceeded (name t) n (failureMessage l)) \<longleftrightarrow> n \<le> attempts_so_far e t + 1) \<and>
              (soft l = None \<and> turns l = None \<and> attempts_so_far e t + 1 < n \<longrightarrow> r = None))))
   \<and> (limit t = Some l \<and> tries l = Some n \<and> 1 \<le> n \<and> soft l = None \<and> turns l = None \<and>
      name t \<notin> set object_prototype_names \<and> attempts e (name t) = None \<and>
      (\<forall>w. \<exists>w'. execute_steps ext lib e t h w = Some (Inr w')) \<and> (\<forall>w. \<not> completed t w) \<longrightarrow>
      (\<forall>k. \<exists>rs. execute_times k ext lib e t h w = Some rs \<and> length rs = k \<and>
         (\<forall>j < k. attempts (fst (rs ! j)) (name t) = Some (Count (int j + 1)) \<and>
                  snd (snd (rs ! j)) =
                    (if n \<le> int j + 1
                     then Some (TriesExceeded (name t) n (failureMessage l)) else None))))
   \<and> (\<forall>w'. execute_steps ext lib e t h w = Some (Inr w') \<and> completed t w' \<longrightarrow>
         execute ext lib e t h w = Some (markAttempt e t, w', None))"
proof (intro conjI impI allI)
  fix w'
  assume lim: "limit t = Some l \<and> tries l = Some n \<and> 1 \<le> n \<and>
    name t \<notin> set object_prototype_names \<and> attempts e (name t) \<noteq> Some NaN"
    and st: "execute_steps ext lib e t h w = Some (Inr w') \<and> \<not> completed t w'"
  let ?e = "markAttempt e t"
  let ?r = "checkLimits ext ?e t w'"
  have att: "attempts ?e (name t) = Some (Count (attempts_so_far e t + 1))"
    using lim by (intro attempts_markAttempt) simp_all
  have ex: "execute ext lib e t h w = Some (?e, w', ?r)"
    using execute_not_completed[of ext lib e t h w w'] st by simp
  have iff: "?r = Some (TriesExceeded (name t) n (failureMessage l)) \<longleftrightarrow> n \<le> attempts_so_far e t + 1"
  proof (cases "n \<le> attempts_so_far e t + 1")
    case True
    then show ?thesis using checkLimits_tries(1)[OF _ _ _ att] lim by blast
  next
    case False
    then have "attempts_so_far e t + 1 < n" by simp
    then show ?thesis using checkLimits_tries(3)[OF _ _ _ att] lim by fastforce
  qed
  have none: "soft l = None \<and> turns l = None \<and> attempts_so_far e t + 1 < n \<longrightarrow> ?r = None"
    using checkLimits_tries(2)[OF _ _ _ att] lim by blast
  show "\<exists>r. execute ext lib e t h w = Some (markAttempt e t, w', r) \<and>
              attempts (markAttempt e t) (name t) = Some (Count (attempts_so_far e t + 1)) \<and>
              (r = Some (TriesExceeded (name t) n (failureMessage l)) \<longleftrightarrow> n \<le> attempts_so_far e t + 1) \<and>
              (soft l = None \<and> turns l = None \<and> attempts_so_far e t + 1 < n \<longrightarrow> r = None)"
    using ex att iff none by blast
next
  fix k
  assume a: "limit t = Some l \<and> tries l = Some n \<and> 1 \<le> n \<and> soft l = None \<and> turns l = None \<and>
      name t \<notin> set object_prototype_names \<and> attempts e (name t) = None \<and>
      (\<forall>w. \<exists>w'. execute_steps ext lib e t h w = Some (Inr w')) \<and> (\<forall>w. \<not> completed t w)"
  then have c0: "attempts_so_far e t = 0" by simp
  have "\<exists>rs. execute_times k ext lib e t h w = Some rs \<and> length rs = k \<and>
           (\<forall>j < k. attempts (fst (rs ! j)) (name t) = Some (Count (attempts_so_far e t + int j + 1)) \<and>
                    snd (snd (rs ! j)) =
                      (if n \<le> attempts_so_far e t + int j + 1
                       then Some (TriesExceeded (name t) n (failureMessage l)) else None))"
    using a by (intro execute_times_never[where ?e0.0 = e]) auto
  then show "\<exists>rs. execute_times k ext lib e t h w = Some rs \<and> length rs = k \<and>
         (\<forall>j < k. attempts (fst (rs ! j)) (name t) = Some (Count (int j + 1)) \<and>
                  snd (snd (rs ! j)) =
                    (if n \<le> int j + 1
                     then Some (TriesExceeded (name t) n (failureMessage l)) else None))"
    unfolding c0 by simp
next
  fix w'
  assume "execute_steps ext lib e t h w = Some (Inr w') \<and> completed t w'"
  then show "execute ext lib e t h w = Some (markAttempt e t, w', None)"
    using execute_completed[of ext lib e t h w] by simp
qed

lemma ex_steps: "execute_steps ex_ext ex_lib e ex_never ex_heap w = Some (Inr w)"
  by (simp add: execute_steps_def ex_never_def plain_task_def acquireItems_def Let_def
      call_hook_def engine_do_def ex_ext_def multi_fight.simps repeat_adv.simps shouldRepeatAdv_def
      setChoices_def)

lemma ex_steps_done: "execute_steps ex_ext ex_lib e ex_done ex_heap w = Some (Inr w)"
  by (simp add: execute_steps_def ex_done_def plain_task_def acquireItems_def Let_def
      call_hook_def engine_do_def ex_ext_def multi_fight.simps repeat_adv.simps shouldRepeatAdv_def
      setChoices_def)

theorem execute_tries_limit_witness:
  "(\<exists>rs. execute_times 4 ex_ext ex_lib (new_Engine [ex_never] \<lparr>combat_defaults = None\<rparr>)
           ex_never ex_heap [] = Some rs
        \<and> map (\<lambda>r. attempts (fst r) ''Q1/never'') rs = [Some (Count 1), Some (Count 2), Some (Count 3), Some (Count 4)]
        \<and> map (\<lambda>r. snd (snd r)) rs =
            [None, None, Some (TriesExceeded ''Q1/never'' 3 []),
             Some (TriesExceeded ''Q1/never'' 3 [])])
   \<and> (\<exists>e'. execute ex_ext ex_lib
             ((new_Engine [ex_done] \<lparr>combat_defaults = None\<rparr>)\<lparr>attempts := [''Q1/done'' \<mapsto> Count 7]\<rparr>)
             ex_done ex_heap [] = Some (e', [], None)
           \<and> attempts e' ''Q1/done'' = Some (Count 8))"
proof -
  let ?e = "new_Engine [ex_never] \<lparr>combat_defaults = None\<rparr>"
  have lim: "limit ex_never = Some \<lparr>tries = Some 3, turns = None, soft = None, message = None\<rparr>"
    "name ex_never = ''Q1/never''" "\<forall>w. \<not> completed ex_never w"
    by (simp_all add: ex_never_def plain_task_def)
  have "\<exists>rs. execute_times 4 ex_ext ex_lib ?e ex_never ex_heap [] = Some rs \<and> length rs = 4 \<and>
         (\<forall>j < 4. attempts (fst (rs ! j)) (name ex_never) = Some (Count (int j + 1)) \<and>
                  snd (snd (rs ! j)) =
                    (if 3 \<le> int j + 1
                     then Some (TriesExceeded (name ex_never) 3
                       (failureMessage \<lparr>tries = Some 3, turns = None, soft = None, message = None\<rparr>))
                     else None))"
    using execute_tries_limit[where t = ex_never
        and l = "\<lparr>tries = Some 3, turns = None, soft = None, message = None\<rparr>"
        and n = 3 and ext = ex_ext and lib = ex_lib and e = ?e and h = ex_heap and w = "[]"]
      lim ex_steps
    by (simp add: new_Engine_def object_prototype_names_def)
  then obtain rs where rs: "execute_times 4 ex_ext ex_lib ?e ex_never ex_heap [] = Some rs"
    "length rs = 4"
    "\<forall>j < 4. attempts (fst (rs ! j)) ''Q1/never'' = Some (Count (int j + 1)) \<and>
                  snd (snd (rs ! j)) =
                    (if 3 \<le> int j + 1 then Some (TriesExceeded ''Q1/never'' 3 []) else None)"
    by (auto simp: lim failureMessage_def)
  from rs(2) obtain r0 r1 r2 r3 where l: "rs = [r0, r1, r2, r3]"
    by (auto simp: length_Suc_conv eval_nat_numeral)
  have "attempts (fst (rs ! 0)) ''Q1/never'' = Some (Count 1) \<and> snd (snd (rs ! 0)) = None"
    using rs(3)[rule_format, of 0] by simp
  moreover have "attempts (fst (rs ! 1)) ''Q1/never'' = Some (Count 2) \<and> snd (snd (rs ! 1)) = None"
    using rs(3)[rule_format, of 1] by simp
  moreover have "attempts (fst (rs ! 2)) ''Q1/never'' = Some (Count 3)
      \<and> snd (snd (rs ! 2)) = Some (TriesExceeded ''Q1/never'' 3 [])"
    using rs(3)[rule_format, of 2] by simp
  moreover have "attempts (fst (rs ! 3)) ''Q1/never'' = Some (Count 4)
      \<and> snd (snd (rs ! 3)) = Some (TriesExceeded ''Q1/never'' 3 [])"
    using rs(3)[rule_format, of 3] by simp
  ultimately have
    "map (\<lambda>r. attempts (fst r) ''Q1/never'') rs = [Some (Count 1), Some (Count 2), Some (Count 3), Some (Count 4)]
     \<and> map (\<lambda>r. snd (snd r)) rs =
            [None, None, Some (TriesExceeded ''Q1/never'' 3 []),
             Some (TriesExceeded ''Q1/never'' 3 [])]"
    unfolding l by (simp add: eval_nat_numeral)
  with rs(1) have first: "\<exists>rs. execute_times 4 ex_ext ex_lib ?e ex_never ex_heap [] = Some rs
        \<and> map (\<lambda>r. attempts (fst r) ''Q1/never'') rs = [Some (Count 1), Some (Count 2), Some (Count 3), Some (Count 4)]
        \<and> map (\<lambda>r. snd (snd r)) rs =
            [None, None, Some (TriesExceeded ''Q1/never'' 3 []),
             Some (TriesExceeded ''Q1/never'' 3 [])]"
    by (intro exI[of _ rs]) simp
  let ?d = "(new_Engine [ex_done] \<lparr>combat_defaults = None\<rparr>)\<lparr>attempts := [''Q1/done'' \<mapsto> Count 7]\<rparr>"
  have d1: "execute ex_ext ex_lib ?d ex_done ex_heap [] = Some (markAttempt ?d ex_done, [], None)"
    using execute_tries_limit[where t = ex_done and ext = ex_ext and lib = ex_lib and e = ?d
        and h = ex_heap and w = "[]"] ex_steps_done[of ?d "[]"]
    by (simp add: ex_done_def plain_task_def)
  have d2: "attempts (markAttempt ?d ex_done) ''Q1/done'' = Some (Count 8)"
    by (simp add: markAttempt_def ex_done_def plain_task_def in_attempts_def read_attempts_def
        increment_def)
  have second: "\<exists>e'. execute ex_ext ex_lib ?d ex_done ex_heap [] = Some (e', [], None)
           \<and> attempts e' ''Q1/done'' = Some (Count 8)"
    using d1 d2 by (intro exI[of _ "markAttempt ?d ex_done"]) simp
  show ?thesis using first second by (rule conjI)
qed



lemma ex_unobtainable_run:
  "execute ex_ext ex_lib (new_Engine [ex_unobtainable] \<lparr>combat_defaults = None\<rparr>)
     ex_unobtainable ex_heap [] =
   Some (new_Engine [ex_unobtainable] \<lparr>combat_defaults = None\<rparr>, [],
         Some (UnableToAcquire ''Q1/get'' 1 (Item ''key'')))"
  by (simp add: execute_def execute_steps_def acquireItems_def acquire_one_def ex_unobtainable_def
      plain_task_def ex_ext_def Let_def)

lemma ex_constructor_steps:
  "execute_steps ex_ext ex_lib e ex_constructor ex_heap w = Some (Inr w)"
  by (simp add: execute_steps_def ex_constructor_def plain_task_def acquireItems_def Let_def
      call_hook_def engine_do_def ex_ext_def multi_fight.simps repeat_adv.simps shouldRepeatAdv_def
      setChoices_def)

lemma ex_constructor_mark:
  "attempts e ''constructor'' = None \<or> attempts e ''constructor'' = Some NaN \<Longrightarrow>
   attempts (markAttempt e ex_constructor) ''constructor'' = Some NaN"
  by (auto simp: markAttempt_def in_attempts_def read_attempts_def increment_def
      object_prototype_names_def ex_constructor_def plain_task_def)

lemma ex_constructor_check:
  "attempts e ''constructor'' = Some NaN \<Longrightarrow> checkLimits ex_ext e ex_constructor w = None"
  by (simp add: checkLimits_def read_attempts_def ex_constructor_def plain_task_def)

lemma ex_constructor_run:
  "attempts e ''constructor'' = None \<or> attempts e ''constructor'' = Some NaN \<Longrightarrow>
   execute ex_ext ex_lib e ex_constructor ex_heap w = Some (markAttempt e ex_constructor, w, None)"
proof -
  assume a: "attempts e ''constructor'' = None \<or> attempts e ''constructor'' = Some NaN"
  have c: "\<not> completed ex_constructor w" by (simp add: ex_constructor_def plain_task_def)
  have "execute ex_ext ex_lib e ex_constructor ex_heap w =
      Some (markAttempt e ex_constructor, w,
            checkLimits ex_ext (markAttempt e ex_constructor) ex_constructor w)"
    using ex_constructor_steps c by (rule execute_not_completed)
  moreover have "checkLimits ex_ext (markAttempt e ex_constructor) ex_constructor w = None"
    using ex_constructor_mark[OF a] by (rule ex_constructor_check)
  ultimately show ?thesis by simp
qed

text \<open>
  C3 as stated fails.  A task with \<open>limit: { tries: 1 }\<close> that cannot acquire its item
  never completes, yet its first call of \<open>execute\<close> throws the unable-to-acquire error
  before the bookkeeping: the counter is not incremented and no tries error is thrown.
  (And for a task named \<open>constructor\<close> the \<open>in\<close> test finds the inherited property, the
  counter is NaN, and no call throws.)
\<close>

theorem execute_tries_limit_counterexample:
  "execute ex_ext ex_lib (new_Engine [ex_unobtainable] \<lparr>combat_defaults = None\<rparr>)
     ex_unobtainable ex_heap [] =
   Some (new_Engine [ex_unobtainable] \<lparr>combat_defaults = None\<rparr>, [],
         Some (UnableToAcquire ''Q1/get'' 1 (Item ''key'')))
   \<and> attempts (new_Engine [ex_unobtainable] \<lparr>combat_defaults = None\<rparr>) ''Q1/get'' = None
   \<and> execute_times 2 ex_ext ex_lib (new_Engine [ex_constructor] \<lparr>combat_defaults = None\<rparr>)
       ex_constructor ex_heap [] =
     Some [(markAttempt (new_Engine [ex_constructor] \<lparr>combat_defaults = None\<rparr>) ex_constructor,
            [], None),
           (markAttempt (markAttempt (new_Engine [ex_constructor] \<lparr>combat_defaults = None\<rparr>)
              ex_constructor) ex_constructor, [], None)]"
proof -
  let ?e = "new_Engine [ex_constructor] \<lparr>combat_defaults = None\<rparr>"
  have a0: "attempts ?e ''constructor'' = None" by (simp add: new_Engine_def)
  have r1: "execute ex_ext ex_lib ?e ex_constructor ex_heap [] =
      Some (markAttempt ?e ex_constructor, [], None)"
    using a0 by (intro ex_constructor_run) simp
  have a1: "attempts (markAttempt ?e ex_constructor) ''constructor'' = Some NaN"
    using a0 by (intro ex_constructor_mark) simp
  have r2: "execute ex_ext ex_lib (markAttempt ?e ex_constructor) ex_constructor ex_heap [] =
      Some (markAttempt (markAttempt ?e ex_constructor) ex_constructor, [], None)"
    using a1 by (intro ex_constructor_run) simp
  have "execute_times 2 ex_ext ex_lib ?e ex_constructor ex_heap [] =
     Some [(markAttempt ?e ex_constructor, [], None),
           (markAttempt (markAttempt ?e ex_constructor) ex_constructor, [], None)]"
    using r1 r2 by (simp add: eval_nat_numeral)
  moreover have "attempts (new_Engine [ex_unobtainable] \<lparr>combat_defaults = None\<rparr>) ''Q1/get'' = None"
    by (simp add: new_Engine_def)
  ultimately show ?thesis using ex_unobtainable_run by (intro conjI)
qed

section \<open>CompressedMacro and CombatStrategy.compile\<close>

lemma map_of_map_set: "map_of (map_set k v xs) = (map_of xs)(k \<mapsto> v)"
  by (induction xs) (auto simp: fun_eq_iff)

lemma map_fst_map_set:
  "map fst (map_set k v xs) = (if k \<in> fst ` set xs then map fst xs else map fst xs @ [k])"
  by (induction xs) auto

lemma distinct_map_set: "distinct (map fst xs) \<Longrightarrow> distinct (map fst (map_set k v xs))"
  by (simp add: map_fst_map_set)

lemma keys_map_set: "fst ` set (map_set k v xs) = insert k (fst ` set xs)"
  using map_fst_map_set[of k v xs] by (metis (no_types, lifting) insert_absorb list.set_map
      list.simps(15) rotate1.simps(2) set_rotate1)

lemma cm_add_text_eq: "cm_add lib monster m = cm_add_text monster (mtext lib m)"
  by (rule ext) (simp add: cm_add_def)

lemma cm_add_text_distinct: "distinct (map fst cs) \<Longrightarrow> distinct (map fst (cm_add_text k t cs))"
  by (auto simp: cm_add_text_def distinct_map_set split: option.splits)

lemma cm_add_text_map_of:
  "map_of (cm_add_text k t cs) t' =
     (if t = [] \<or> t' \<noteq> t then map_of cs t'
      else Some ((case map_of cs t of None \<Rightarrow> [] | Some ms \<Rightarrow> ms) @ [k]))"
  by (auto simp: cm_add_text_def map_of_map_set split: option.splits)

lemma fold_cm_add_text:
  "distinct (map fst cs) \<Longrightarrow>
   distinct (map fst (fold (\<lambda>p. cm_add_text (fst p) (snd p)) entries cs))
   \<and> map_of (fold (\<lambda>p. cm_add_text (fst p) (snd p)) entries cs) t =
       (if t = [] \<or> t \<notin> snd ` set entries then map_of cs t
        else Some ((case map_of cs t of None \<Rightarrow> [] | Some ms \<Rightarrow> ms)
                   @ map fst (filter (\<lambda>p. snd p = t) entries)))"
proof (induction entries arbitrary: cs)
  case Nil
  then show ?case by simp
next
  case (Cons p entries)
  let ?cs = "cm_add_text (fst p) (snd p) cs"
  have d: "distinct (map fst ?cs)" using Cons.prems by (rule cm_add_text_distinct)
  note ih = Cons.IH[OF d]
  show ?case
  proof (cases "t = [] \<or> t \<notin> snd ` set (p # entries)")
    case True
    then show ?thesis using ih by (auto simp: cm_add_text_map_of)
  next
    case False
    have e: "filter (\<lambda>q. snd q = t) entries = []" if "t \<notin> snd ` set entries"
      using that by (force simp: filter_empty_conv)
    show ?thesis
    proof (cases "t \<in> snd ` set entries")
      case True
      then show ?thesis using ih False by (auto simp: cm_add_text_map_of split: option.splits)
    next
      case False
      with \<open>\<not> (t = [] \<or> t \<notin> snd ` set (p # entries))\<close> have "snd p = t" "t \<noteq> []" by auto
      then show ?thesis using ih False e by (auto simp: cm_add_text_map_of split: option.splits)
    qed
  qed
qed

lemma monster_macros_entries:
  "monster_macros lib this w h =
     fold (\<lambda>p. cm_add_text (fst p) (snd p)) (macro_entries lib this w h) []"
  by (simp add: monster_macros_def macro_entries_def fold_map comp_def cm_add_text_eq)

lemma fold_concat_map_opt:
  "fold f (concat (map (\<lambda>x. case g x of None \<Rightarrow> [] | Some y \<Rightarrow> [k x y]) xs)) s =
   fold (\<lambda>x s. case g x of None \<Rightarrow> s | Some y \<Rightarrow> f (k x y) s) xs s"
  by (induction xs arbitrary: s) (auto split: option.splits)

lemma monster_actions_entries:
  "monster_actions lib this resources defaults h =
     fold (\<lambda>p. cm_add_text (fst p) (snd p)) (action_entries lib this resources defaults h) []"
proof -
  have "(\<lambda>pair cm.
          case action_macro lib resources defaults (snd pair) (AtMonster (fst pair)) of
            None \<Rightarrow> cm
          | Some m \<Rightarrow> cm_add lib (fst pair) (mstep lib (mnew lib) [m]) cm) =
        (\<lambda>pair s.
          case action_macro lib resources defaults (snd pair) (AtMonster (fst pair)) of
            None \<Rightarrow> s
          | Some m \<Rightarrow>
              cm_add_text (fst (fst pair, mtext lib (mstep lib (mnew lib) [m])))
                (snd (fst pair, mtext lib (mstep lib (mnew lib) [m]))) s)"
    by (intro ext) (simp add: cm_add_text_eq split: option.splits)
  then show ?thesis
    unfolding monster_actions_def action_entries_def fold_concat_map_opt by simp
qed

lemma cm_compile_clauses:
  "cm_compile lib cs = fold (\<lambda>cl result. mif lib result (fst cl) (snd cl)) (clauses cs) (mnew lib)"
  by (simp add: cm_compile_def clauses_def fold_map comp_def)


text \<open>
  C5: in each of the two blocks that compile builds (the target-specific macros and the
  target-specific actions), the targets are grouped by the text of the macro that runs for
  them: the components have distinct texts, exactly the non-empty texts of the block's
  entries, each text is mapped to all the targets with that text, in order, and the compiled
  block is one \<open>if_\<close> clause per component, guarded by the disjunction of the \<open>monsterid\<close>
  tests of its targets.  An empty text has no component.
\<close>

theorem compile_blocks_grouped:
  "(distinct (map fst (monster_macros lib this w h))
    \<and> fst ` set (monster_macros lib this w h) =
        {t. t \<noteq> [] \<and> t \<in> snd ` set (macro_entries lib this w h)}
    \<and> (\<forall>t. map_of (monster_macros lib this w h) t =
          (if t \<noteq> [] \<and> t \<in> snd ` set (macro_entries lib this w h)
           then Some (map fst (filter (\<lambda>p. snd p = t) (macro_entries lib this w h)))
           else None))
    \<and> cm_compile lib (monster_macros lib this w h) =
        fold (\<lambda>cl result. mif lib result (fst cl) (snd cl))
          (clauses (monster_macros lib this w h)) (mnew lib))
   \<and> (distinct (map fst (monster_actions lib this resources defaults h))
    \<and> fst ` set (monster_actions lib this resources defaults h) =
        {t. t \<noteq> [] \<and> t \<in> snd ` set (action_entries lib this resources defaults h)}
    \<and> (\<forall>t. map_of (monster_actions lib this resources defaults h) t =
          (if t \<noteq> [] \<and> t \<in> snd ` set (action_entries lib this resources defaults h)
           then Some (map fst (filter (\<lambda>p. snd p = t)
                                 (action_entries lib this resources defaults h)))
           else None))
    \<and> cm_compile lib (monster_actions lib this resources defaults h) =
        fold (\<lambda>cl result. mif lib result (fst cl) (snd cl))
          (clauses (monster_actions lib this resources defaults h)) (mnew lib))"
proof -
  have g: "distinct (map fst (fold (\<lambda>p. cm_add_text (fst p) (snd p)) entries []))
     \<and> fst ` set (fold (\<lambda>p. cm_add_text (fst p) (snd p)) entries []) =
          {t. t \<noteq> [] \<and> t \<in> snd ` set entries}
     \<and> (\<forall>t. map_of (fold (\<lambda>p. cm_add_text (fst p) (snd p)) entries []) t =
          (if t \<noteq> [] \<and> t \<in> snd ` set entries
           then Some (map fst (filter (\<lambda>p. snd p = t) entries)) else None))" for entries
  proof -
    let ?b = "fold (\<lambda>p. cm_add_text (fst p) (snd p)) entries []"
    have m: "\<forall>t. map_of ?b t =
          (if t \<noteq> [] \<and> t \<in> snd ` set entries
           then Some (map fst (filter (\<lambda>p. snd p = t) entries)) else None)"
      using fold_cm_add_text[of "[]" entries] by auto
    have "fst ` set ?b = dom (map_of ?b)" by (simp add: dom_map_of_conv_image_fst)
    also have "\<dots> = {t. t \<noteq> [] \<and> t \<in> snd ` set entries}"
      unfolding dom_def using m by auto
    finally have k: "fst ` set ?b = {t. t \<noteq> [] \<and> t \<in> snd ` set entries}" .
    have d: "distinct (map fst ?b)"
      using fold_cm_add_text[of "[]" entries "[]"] by simp
    show ?thesis using d k m by (intro conjI)
  qed
  have a: "distinct (map fst (monster_macros lib this w h))
    \<and> fst ` set (monster_macros lib this w h) =
        {t. t \<noteq> [] \<and> t \<in> snd ` set (macro_entries lib this w h)}
    \<and> (\<forall>t. map_of (monster_macros lib this w h) t =
          (if t \<noteq> [] \<and> t \<in> snd ` set (macro_entries lib this w h)
           then Some (map fst (filter (\<lambda>p. snd p = t) (macro_entries lib this w h)))
           else None))"
    unfolding monster_macros_entries by (rule g)
  have b: "distinct (map fst (monster_actions lib this resources defaults h))
    \<and> fst ` set (monster_actions lib this resources defaults h) =
        {t. t \<noteq> [] \<and> t \<in> snd ` set (action_entries lib this resources defaults h)}
    \<and> (\<forall>t. map_of (monster_actions lib this resources defaults h) t =
          (if t \<noteq> [] \<and> t \<in> snd ` set (action_entries lib this resources defaults h)
           then Some (map fst (filter (\<lambda>p. snd p = t)
                                 (action_entries lib this resources defaults h)))
           else None))"
    unfolding monster_actions_entries by (rule g)
  have c: "cm_compile lib cs =
        fold (\<lambda>cl result. mif lib result (fst cl) (snd cl)) (clauses cs) (mnew lib)" for cs
    by (rule cm_compile_clauses)
  show ?thesis
    by (intro conjI a[THEN conjunct1] a[THEN conjunct2, THEN conjunct1]
        a[THEN conjunct2, THEN conjunct2] b[THEN conjunct1] b[THEN conjunct2, THEN conjunct1]
        b[THEN conjunct2, THEN conjunct2] c)
qed

lemma ex_macro_entries:
  "macro_entries ex_lib (fst ex_strategy) [] (snd ex_strategy) =
     [(Monster ''crate'' 1, ''attack''), (Monster ''rat'' 2, ''attack''),
      (Monster ''bat'' 4, ''skill Saucestorm''), (Monster ''goblin'' 3, ''attack''),
      (Monster ''ghost'' 5, [])]"
  by code_simp

lemma ex_monster_macros:
  "monster_macros ex_lib (fst ex_strategy) [] (snd ex_strategy) =
     [(''attack'', [Monster ''crate'' 1, Monster ''rat'' 2, Monster ''goblin'' 3]),
      (''skill Saucestorm'', [Monster ''bat'' 4])]"
  by code_simp

lemma ex_clauses:
  "clauses (monster_macros ex_lib (fst ex_strategy) [] (snd ex_strategy)) =
     [(''monsterid 1 || monsterid 2 || monsterid 3'', ''attack''),
      (''monsterid 4'', ''skill Saucestorm'')]"
  by code_simp

lemma ex_compile:
  "compile ex_lib (fst ex_strategy) [] (Some ex_defaults) None [] (snd ex_strategy) =
     [''if monsterid 1 || monsterid 2 || monsterid 3'', ''attack'', ''endif'',
      ''if monsterid 4'', ''skill Saucestorm'', ''endif'',
      ''if monsterid 1 || monsterid 4 || monsterid 5'', ''skill Snokebomb'', ''endif'']"
  by code_simp


theorem compile_blocks_grouped_witness:
  "map_of (monster_macros ex_lib (fst ex_strategy) [] (snd ex_strategy)) ''attack'' =
     Some [Monster ''crate'' 1, Monster ''rat'' 2, Monster ''goblin'' 3]
   \<and> map_of (monster_macros ex_lib (fst ex_strategy) [] (snd ex_strategy)) [] = None
   \<and> clauses (monster_macros ex_lib (fst ex_strategy) [] (snd ex_strategy)) =
       [(''monsterid 1 || monsterid 2 || monsterid 3'', ''attack''),
        (''monsterid 4'', ''skill Saucestorm'')]
   \<and> compile ex_lib (fst ex_strategy) [] (Some ex_defaults) None [] (snd ex_strategy) =
       [''if monsterid 1 || monsterid 2 || monsterid 3'', ''attack'', ''endif'',
        ''if monsterid 4'', ''skill Saucestorm'', ''endif'',
        ''if monsterid 1 || monsterid 4 || monsterid 5'', ''skill Snokebomb'', ''endif'']"
proof -
  let ?b = "monster_macros ex_lib (fst ex_strategy) [] (snd ex_strategy)"
  let ?e = "macro_entries ex_lib (fst ex_strategy) [] (snd ex_strategy)"
  have all: "\<forall>t. map_of ?b t =
          (if t \<noteq> [] \<and> t \<in> snd ` set ?e
           then Some (map fst (filter (\<lambda>p. snd p = t) ?e)) else None)"
    using compile_blocks_grouped[of ex_lib "fst ex_strategy" "[]" "snd ex_strategy"
        "[]" "Some ex_defaults"]
    by (elim conjE)
  have 1: "map_of ?b ''attack'' = Some [Monster ''crate'' 1, Monster ''rat'' 2, Monster ''goblin'' 3]"
    using all[rule_format, of "''attack''"] unfolding ex_macro_entries by simp
  have 2: "map_of ?b [] = None"
    using all[rule_format, of "[]"] by simp
  show ?thesis using 1 2 ex_clauses ex_compile by simp
qed

section \<open>CombatStrategy.clone\<close>

lemma clone_same_maps:
  "macros (fst (clone this h)) = macros this \<and> actions (fst (clone this h)) = actions this"
  by (simp add: clone_def Let_def split: option.splits)

text \<open>
  C2: \<open>clone\<close> is documented as a deep copy, but the object it returns holds the very maps
  of the original.  Here a strategy has one macro for one monster; after a macro is added
  to its clone for that monster, the original's list for the monster has two macros, and
  after an action is set on the clone, the original has that action.
\<close>

theorem clone_not_deep:
  "macros (fst ex_cloned) = macros (fst ex_original)
   \<and> actions (fst ex_cloned) = actions (fst ex_original)
   \<and> map_option (map (\<lambda>d. undelay d [])) (macros_get (fst ex_original) (Monster ''crate'' 1) (snd ex_cloned))
       = Some [[''attack'']]
   \<and> map_option (map (\<lambda>d. undelay d [])) (macros_get (fst ex_original) (Monster ''crate'' 1) (snd ex_clone_macro))
       = Some [[''attack''], [''skill Saucestorm'']]
   \<and> actions_get (fst ex_original) (Monster ''crate'' 1) (snd ex_cloned) = None
   \<and> actions_get (fst ex_original) (Monster ''crate'' 1) (snd ex_clone_action) = Some ''banish''"
  by code_simp

section \<open>getTasks\<close>

lemma fold_quest_items:
  "fold (\<lambda>p. visit_task ia (fst p) (snd p)) (quest_items quests) st =
   fold (\<lambda>q st. fold (visit_task ia (quest_name q)) (quest_tasks q) st) quests st"
  by (induction quests arbitrary: st) (simp_all add: quest_items_def fold_map comp_def)

lemma flatten_quests_items:
  "flatten_quests ia quests s =
     fold (\<lambda>p. visit_task ia (fst p) (snd p)) (quest_items quests) (s, [])"
  by (simp add: flatten_quests_def fold_quest_items)

lemma map_snd_quest_items: "map snd (quest_items quests) = concat (map quest_tasks quests)"
  by (induction quests) (simp_all add: quest_items_def comp_def)

lemma visit_task_result: "snd (visit_task ia q r st) = snd st @ [r]"
  by (simp add: visit_task_def Let_def)

lemma visit_task_other: "r' \<noteq> r \<Longrightarrow> fst (visit_task ia q r st) r' = fst st r'"
  by (simp add: visit_task_def Let_def)

lemma visit_task_self:
  "fst (visit_task ia q r st) r =
     (fst st r)\<lparr>name := q @ ''/'' @ name (fst st r),
       after := (case after (fst st r) of
                   Some as \<Rightarrow> Some (map (namespace_after q) as)
                 | None \<Rightarrow>
                     if ia \<and> snd st \<noteq> []
                     then Some [if last (snd st) = r then q @ ''/'' @ name (fst st r)
                                else name (fst st (last (snd st)))]
                     else None)\<rparr>"
  by (simp add: visit_task_def Let_def split: option.splits)

lemma fold_visit_result:
  "snd (fold (\<lambda>p. visit_task ia (fst p) (snd p)) items st) = snd st @ map snd items"
  by (induction items arbitrary: st) (simp_all add: visit_task_result)

lemma fold_visit_other:
  "r \<notin> snd ` set items \<Longrightarrow> fst (fold (\<lambda>p. visit_task ia (fst p) (snd p)) items st) r = fst st r"
  by (induction items arbitrary: st) (simp_all add: visit_task_other)

lemma fold_visit_namespaced:
  assumes "distinct (map snd items)" "i < length items"
  shows "fst (fold (\<lambda>p. visit_task ia (fst p) (snd p)) items (s, [])) (snd (items ! i)) =
           namespaced ia items s i"
  using assms
proof (induction items arbitrary: i rule: rev_induct)
  case Nil
  then show ?case by simp
next
  case (snoc p xs)
  let ?st = "fold (\<lambda>p. visit_task ia (fst p) (snd p)) xs (s, [])"
  have d: "distinct (map snd xs)" and new: "snd p \<notin> snd ` set xs"
    using snoc.prems(1) by auto
  have res: "snd ?st = map snd xs" by (simp add: fold_visit_result)
  have old: "fst ?st (snd p) = s (snd p)" by (simp add: fold_visit_other[OF new])
  show ?case
  proof (cases "i < length xs")
    case True
    then have ne: "snd (xs ! i) \<noteq> snd p" using new by (metis nth_mem imageI)
    have e1: "(xs @ [p]) ! i = xs ! i" using True by (simp add: nth_append)
    have "i - 1 < length xs" using True by simp
    then have e2: "(xs @ [p]) ! (i - 1) = xs ! (i - 1)" by (simp add: nth_append)
    have "namespaced ia (xs @ [p]) s i = namespaced ia xs s i"
      unfolding namespaced_def e1 e2 by (rule refl)
    then show ?thesis using True ne snoc.IH[OF d True]
      by (simp add: nth_append visit_task_other)
  next
    case False
    then have i: "i = length xs" using snoc.prems(2) by simp
    show ?thesis
    proof (cases "xs = []")
      case True
      then show ?thesis using i
        by (simp add: visit_task_self namespaced_def cong: option.case_cong)
    next
      case False
      then have l: "last (map snd xs) = snd (xs ! (length xs - 1))"
        by (simp add: last_map last_conv_nth)
      have lt: "length xs - 1 < length xs" using False by simp
      then have ne: "snd (xs ! (length xs - 1)) \<noteq> snd p" using new by (metis nth_mem imageI)
      have prev: "fst ?st (snd (xs ! (length xs - 1))) = namespaced ia xs s (length xs - 1)"
        using snoc.IH[OF d lt] .
      have nm: "name (namespaced ia xs s (length xs - 1)) =
          fst (xs ! (length xs - 1)) @ ''/'' @ name (s (snd (xs ! (length xs - 1))))"
        by (simp add: namespaced_def)
      show ?thesis using i False ne res old l prev nm
        by (cases ia) (simp_all add: visit_task_self namespaced_def nth_append
            cong: option.case_cong)
    qed
  qed
qed

lemma verify_after_None: "verify_after names nm as = None \<longleftrightarrow> set as \<subseteq> names"
  by (induction as) auto

lemma verify_after_Some:
  "verify_after names nm as = Some e \<Longrightarrow>
   \<exists>dep \<in> set as. dep \<notin> names \<and> e = UnknownTaskDependencyOf dep nm"
  by (induction as) (auto split: if_splits)

lemma verify_tasks_None:
  "verify_tasks names ts = None \<longleftrightarrow> (\<forall>t \<in> set ts. set (after_list t) \<subseteq> names)"
  by (induction ts) (auto simp: verify_after_None split: option.splits dest: verify_after_Some)

lemma verify_tasks_Some:
  "verify_tasks names ts = Some e \<Longrightarrow>
   \<exists>t \<in> set ts. \<exists>dep \<in> set (after_list t). dep \<notin> names \<and> e = UnknownTaskDependencyOf dep (name t)"
proof (induction ts)
  case Nil
  then show ?case by simp
next
  case (Cons t ts)
  show ?case
  proof (cases "verify_after names (name t) (after_list t)")
    case None
    then show ?thesis using Cons by auto
  next
    case (Some e')
    then have "e' = e" using Cons.prems by simp
    then show ?thesis using verify_after_Some[OF Some] by auto
  qed
qed

lemma fst_getTasks: "fst (getTasks quests ia s) = fst (flatten_quests ia quests s)"
  by (simp add: getTasks_def Let_def split: option.splits)

lemma snd_flatten_quests: "snd (flatten_quests ia quests s) = concat (map quest_tasks quests)"
  by (simp add: flatten_quests_items fold_visit_result map_snd_quest_items)

lemma getTasks_cases:
  "snd (getTasks quests ia s) =
     (case verify_tasks ((\<lambda>r. name (fst (getTasks quests ia s) r)) ` set (concat (map quest_tasks quests)))
             (map (fst (getTasks quests ia s)) (concat (map quest_tasks quests))) of
        Some e \<Rightarrow> Inl e
      | None \<Rightarrow> Inr (concat (map quest_tasks quests)))"
  unfolding fst_getTasks
  by (simp add: getTasks_def Let_def snd_flatten_quests split: option.splits)

lemma getTasks_store_namespaced:
  assumes "distinct (concat (map quest_tasks quests))" "i < length (quest_items quests)"
  shows "fst (getTasks quests ia s) (snd (quest_items quests ! i)) =
           namespaced ia (quest_items quests) s i"
  unfolding fst_getTasks flatten_quests_items
  using assms by (intro fold_visit_namespaced) (simp_all add: map_snd_quest_items)

lemma getTasks_store_other:
  assumes "r \<notin> set (concat (map quest_tasks quests))"
  shows "fst (getTasks quests ia s) r = s r"
  unfolding fst_getTasks flatten_quests_items
  using assms fold_visit_other[of r "quest_items quests" ia "(s, [])"]
  by (simp add: map_snd_quest_items[symmetric])

lemma result_nth:
  "i < length (quest_items quests) \<Longrightarrow>
   concat (map quest_tasks quests) ! i = snd (quest_items quests ! i)"
  by (simp add: map_snd_quest_items[symmetric])

lemma length_quest_items: "length (quest_items quests) = length (concat (map quest_tasks quests))"
  by (simp add: map_snd_quest_items[symmetric])

lemma ex_getTasks: "snd (getTasks ex_quests False ex_store) = Inr [0, 1, 2]"
  by code_simp

lemma visit_task_name:
  "name (fst (visit_task ia q r0 st) r) =
     (if r = r0 then q @ ''/'' @ name (fst st r) else name (fst st r))"
  by (simp add: visit_task_def Let_def)

lemma visit_task_frame:
  "fst (visit_task ia q r0 st) r =
     (fst st r)\<lparr>name := name (fst (visit_task ia q r0 st) r),
                after := after (fst (visit_task ia q r0 st) r)\<rparr>"
  by (simp add: visit_task_def Let_def)

lemma fold_visit_name:
  "name (fst (fold (\<lambda>p. visit_task ia (fst p) (snd p)) items st) r) =
     prefixes items r @ name (fst st r)"
proof (induction items arbitrary: st)
  case Nil
  then show ?case by (simp add: prefixes_def)
next
  case (Cons p ps)
  have "name (fst (fold (\<lambda>p. visit_task ia (fst p) (snd p)) (p # ps) st) r) =
        prefixes ps r @ name (fst (visit_task ia (fst p) (snd p) st) r)"
    using Cons.IH[of "visit_task ia (fst p) (snd p) st"] by simp
  also have "\<dots> = prefixes (p # ps) r @ name (fst st r)"
    by (simp add: visit_task_name prefixes_def)
  finally show ?case .
qed

lemma fold_visit_frame:
  "fst (fold (\<lambda>p. visit_task ia (fst p) (snd p)) items st) r =
     (fst st r)\<lparr>name := name (fst (fold (\<lambda>p. visit_task ia (fst p) (snd p)) items st) r),
                after := after (fst (fold (\<lambda>p. visit_task ia (fst p) (snd p)) items st) r)\<rparr>"
proof (induction items arbitrary: st)
  case Nil
  then show ?case by simp
next
  case (Cons p ps)
  let ?st = "visit_task ia (fst p) (snd p) st"
  let ?f = "fst (fold (\<lambda>p. visit_task ia (fst p) (snd p)) ps ?st) r"
  have 1: "?f = (fst ?st r)\<lparr>name := name ?f, after := after ?f\<rparr>" by (rule Cons.IH)
  have 2: "fst ?st r = (fst st r)\<lparr>name := name (fst ?st r), after := after (fst ?st r)\<rparr>"
    by (rule visit_task_frame)
  have "?f = (fst st r)\<lparr>name := name ?f, after := after ?f\<rparr>"
    by (subst 1, subst 2) simp
  then show ?case by simp
qed

lemma namespace_after_idem: "namespace_after q' (namespace_after q a) = namespace_after q a"
  by (simp add: namespace_after_def)

lemma visit_task_after_explicit:
  "after (fst st r) = Some as \<Longrightarrow>
   after (fst (visit_task ia q r0 st) r) =
     Some (if r = r0 then map (namespace_after q) as else as)"
  by (cases "r = r0") (simp_all add: visit_task_def Let_def)

lemma fold_visit_after_explicit:
  "after (fst st r) = Some as \<Longrightarrow>
   after (fst (fold (\<lambda>p. visit_task ia (fst p) (snd p)) items st) r) =
     Some (case find (\<lambda>p. snd p = r) items of
             None \<Rightarrow> as
           | Some p \<Rightarrow> map (namespace_after (fst p)) as)"
proof (induction items arbitrary: st as)
  case Nil
  then show ?case by simp
next
  case (Cons p ps)
  let ?st = "visit_task ia (fst p) (snd p) st"
  show ?case
  proof (cases "snd p = r")
    case False
    then have "after (fst ?st r) = Some as"
      using visit_task_after_explicit[OF Cons.prems, of ia "fst p" "snd p"] by auto
    from Cons.IH[OF this] show ?thesis using False by simp
  next
    case True
    let ?as = "map (namespace_after (fst p)) as"
    have a: "after (fst ?st r) = Some ?as"
      using visit_task_after_explicit[OF Cons.prems, of ia "fst p" "snd p"] True by simp
    have idem: "map (namespace_after q') ?as = ?as" for q'
      by (simp add: namespace_after_idem)
    have idem2: "map (namespace_after (fst p')) ?as = ?as" for p' :: "string \<times> ref"
      by (rule idem)
    have "after (fst (fold (\<lambda>p. visit_task ia (fst p) (snd p)) ps ?st) r) =
        Some (case find (\<lambda>p. snd p = r) ps of
             None \<Rightarrow> ?as
           | Some p' \<Rightarrow> map (namespace_after (fst p')) ?as)"
      by (rule Cons.IH[OF a])
    also have "\<dots> = Some ?as"
    proof (cases "find (\<lambda>p. snd p = r) ps")
      case None
      then show ?thesis by simp
    next
      case (Some p')
      show ?thesis unfolding Some option.case idem2 by (rule refl)
    qed
    finally show ?thesis using True by simp
  qed
qed

lemma prefixes_distinct:
  assumes "distinct (map snd items)" "i < length items"
  shows "prefixes items (snd (items ! i)) = fst (items ! i) @ ''/''"
proof -
  have "filter (\<lambda>p. snd p = snd (items ! i)) items = [items ! i]"
    using assms
  proof (induction items arbitrary: i)
    case Nil
    then show ?case by simp
  next
    case (Cons p ps)
    show ?case
    proof (cases i)
      case 0
      have "snd p \<notin> snd ` set ps" using Cons.prems(1) by simp
      then have "\<forall>x \<in> set ps. snd x \<noteq> snd p" by (metis imageI)
      then have "filter (\<lambda>x. snd x = snd p) ps = []" by (simp add: filter_empty_conv)
      then show ?thesis using 0 by simp
    next
      case (Suc j)
      then have j: "j < length ps" using Cons.prems(2) by simp
      then have "snd (ps ! j) \<in> snd ` set ps" by (metis nth_mem imageI)
      moreover have "snd p \<notin> snd ` set ps" using Cons.prems(1) by simp
      ultimately have "snd p \<noteq> snd (ps ! j)" by metis
      then show ?thesis using Suc Cons.IH[OF _ j] Cons.prems(1) by simp
    qed
  qed
  then show ?thesis by (simp add: prefixes_def)
qed

text \<open>
  C4, as amended: when no task object stands twice in the quests and getTasks returns, the result
  holds the task objects of the quests, one entry each, in quest order and then in the
  order of declaration; the name of each is \<open>quest-name/task-name\<close>, and each entry of an
  \<open>after\<close> list is prefixed with the quest's name unless it holds the separator.  Quests Q1
  (a, b) and Q2 (c) give the names Q1/a, Q1/b, Q2/c.
\<close>

theorem getTasks_namespaces:
  assumes "distinct (concat (map quest_tasks quests))"
    and "getTasks quests ia s = (s', Inr result)"
  shows "result = concat (map quest_tasks quests)
         \<and> map (\<lambda>r. name (s' r)) result =
             map (\<lambda>p. fst p @ ''/'' @ name (s (snd p))) (quest_items quests)
         \<and> (\<forall>i < length result. \<forall>as. after (s (result ! i)) = Some as \<longrightarrow>
               after (s' (result ! i)) =
                 Some (map (\<lambda>a. if CHR ''/'' \<in> set a then a
                                else fst (quest_items quests ! i) @ ''/'' @ a) as))"
proof -
  let ?items = "quest_items quests"
  have s': "s' = fst (getTasks quests ia s)" using assms(2) by simp
  have res: "result = concat (map quest_tasks quests)"
    using getTasks_cases[of quests ia s] assms(2) by (simp split: option.splits)
  have len: "length result = length ?items" by (simp add: res length_quest_items)
  have nth: "s' (result ! i) = namespaced ia ?items s i" if "i < length result" for i
    using that getTasks_store_namespaced[OF assms(1), of i ia s] result_nth[of i quests]
    by (simp add: s' res len[unfolded res])
  have names: "map (\<lambda>r. name (s' r)) result = map (\<lambda>p. fst p @ ''/'' @ name (s (snd p))) ?items"
  proof (rule nth_equalityI)
    show "length (map (\<lambda>r. name (s' r)) result) =
          length (map (\<lambda>p. fst p @ ''/'' @ name (s (snd p))) ?items)"
      by (simp add: len)
  next
    fix i assume "i < length (map (\<lambda>r. name (s' r)) result)"
    then have i: "i < length result" by simp
    then show "map (\<lambda>r. name (s' r)) result ! i =
               map (\<lambda>p. fst p @ ''/'' @ name (s (snd p))) ?items ! i"
      using nth[OF i] len by (simp add: namespaced_def)
  qed
  have afters: "\<forall>i < length result. \<forall>as. after (s (result ! i)) = Some as \<longrightarrow>
               after (s' (result ! i)) =
                 Some (map (\<lambda>a. if CHR ''/'' \<in> set a then a
                                else fst (?items ! i) @ ''/'' @ a) as)"
  proof (intro allI impI)
    fix i as assume i: "i < length result" and as: "after (s (result ! i)) = Some as"
    have "result ! i = snd (?items ! i)" using i result_nth[of i quests] len by (simp add: res)
    then show "after (s' (result ! i)) =
                 Some (map (\<lambda>a. if CHR ''/'' \<in> set a then a
                                else fst (?items ! i) @ ''/'' @ a) as)"
      using nth[OF i] as by (simp add: namespaced_def namespace_after_def[abs_def])
  qed
  show ?thesis using res names afters by (intro conjI)
qed

theorem getTasks_namespaces_witness:
  "snd (getTasks ex_quests False ex_store) = Inr [0, 1, 2]
   \<and> map (\<lambda>r. name (fst (getTasks ex_quests False ex_store) r)) [0, 1, 2] =
       [''Q1/a'', ''Q1/b'', ''Q2/c'']
   \<and> after (fst (getTasks ex_quests False ex_store) 1) = Some [''Q1/a'', ''Q2/c'']"
proof -
  have d: "distinct (concat (map quest_tasks ex_quests))" by (simp add: ex_quests_def)
  have g: "getTasks ex_quests False ex_store = (fst (getTasks ex_quests False ex_store), Inr [0, 1, 2])"
    using ex_getTasks by (metis prod.collapse)
  have items: "quest_items ex_quests = [(''Q1'', 0), (''Q1'', 1), (''Q2'', 2)]"
    by (simp add: quest_items_def ex_quests_def)
  note t = getTasks_namespaces[OF d g]
  have "map (\<lambda>p. fst p @ ''/'' @ name (ex_store (snd p))) (quest_items ex_quests) =
       [''Q1/a'', ''Q1/b'', ''Q2/c'']"
    unfolding items by (simp add: ex_store_def plain_task_def)
  with t[THEN conjunct2, THEN conjunct1]
  have 1: "map (\<lambda>r. name (fst (getTasks ex_quests False ex_store) r)) [0, 1, 2] =
       [''Q1/a'', ''Q1/b'', ''Q2/c'']"
    by (rule trans)
  have "after (ex_store ([0, 1, 2] ! 1)) = Some [''a'', ''Q2/c'']"
    by (simp add: ex_store_def plain_task_def)
  moreover have "(1::nat) < length [0::nat, 1, 2]" by simp
  ultimately have 2: "after (fst (getTasks ex_quests False ex_store) ([0, 1, 2] ! 1)) =
      Some (map (\<lambda>a. if CHR ''/'' \<in> set a then a
                      else fst (quest_items ex_quests ! 1) @ ''/'' @ a) [''a'', ''Q2/c''])"
    using t[THEN conjunct2, THEN conjunct2] by blast
  have 3: "after (fst (getTasks ex_quests False ex_store) 1) = Some [''Q1/a'', ''Q2/c'']"
    using 2 unfolding items by simp
  show ?thesis using ex_getTasks 1 3 by (intro conjI)
qed

text \<open>
  C4 as stated fails when one task object stands in two quests: it is renamed at each
  visit, so the result holds it twice under the name Q2/Q1/a, where the claim has the
  names Q1/a and Q2/a.
\<close>

theorem getTasks_namespaces_counterexample:
  "snd (getTasks ex_shared_quests False ex_store) = Inr [0, 0]
   \<and> map (\<lambda>r. name (fst (getTasks ex_shared_quests False ex_store) r)) [0, 0] =
       [''Q2/Q1/a'', ''Q2/Q1/a'']
   \<and> map (\<lambda>p. fst p @ ''/'' @ name (ex_store (snd p))) (quest_items ex_shared_quests) =
       [''Q1/a'', ''Q2/a'']"
  by code_simp

text \<open>
  C7: getTasks throws the unknown-dependency error exactly when, in the store it leaves
  (the names and dependencies after namespacing), some task of the flattened list has an
  \<open>after\<close> entry that is the name of no task of that list; the error holds that entry and
  the name of that task.  The names are those of the whole list, so an entry that names a
  task declared later, also in a later quest, is accepted.  Otherwise the flattened list is
  returned.  (With no task object twice in the quests, the store holds at each position
  the namespaced task.)
\<close>

theorem getTasks_unknown_dependency:
  "((\<exists>e. snd (getTasks quests ia s) = Inl e) \<longleftrightarrow>
      (\<exists>r \<in> set (concat (map quest_tasks quests)).
         \<exists>dep \<in> set (after_list (fst (getTasks quests ia s) r)).
           dep \<notin> (\<lambda>r'. name (fst (getTasks quests ia s) r')) ` set (concat (map quest_tasks quests))))
   \<and> (\<forall>e. snd (getTasks quests ia s) = Inl e \<longrightarrow>
        (\<exists>r \<in> set (concat (map quest_tasks quests)).
           \<exists>dep \<in> set (after_list (fst (getTasks quests ia s) r)).
             dep \<notin> (\<lambda>r'. name (fst (getTasks quests ia s) r')) ` set (concat (map quest_tasks quests))
             \<and> e = UnknownTaskDependencyOf dep (name (fst (getTasks quests ia s) r))))
   \<and> (\<forall>res. snd (getTasks quests ia s) = Inr res \<longrightarrow> res = concat (map quest_tasks quests))
   \<and> (distinct (concat (map quest_tasks quests)) \<longrightarrow>
        (\<forall>i < length (quest_items quests).
           fst (getTasks quests ia s) (snd (quest_items quests ! i)) =
             namespaced ia (quest_items quests) s i))"
proof -
  let ?s = "fst (getTasks quests ia s)"
  let ?res = "concat (map quest_tasks quests)"
  let ?names = "(\<lambda>r'. name (?s r')) ` set ?res"
  let ?v = "verify_tasks ?names (map ?s ?res)"
  have c: "snd (getTasks quests ia s) = (case ?v of Some e \<Rightarrow> Inl e | None \<Rightarrow> Inr ?res)"
    by (rule getTasks_cases)
  have bad: "?v \<noteq> None \<longleftrightarrow> (\<exists>r \<in> set ?res. \<exists>dep \<in> set (after_list (?s r)). dep \<notin> ?names)"
    unfolding verify_tasks_None by auto
  have 1: "(\<exists>e. snd (getTasks quests ia s) = Inl e) \<longleftrightarrow>
      (\<exists>r \<in> set ?res. \<exists>dep \<in> set (after_list (?s r)). dep \<notin> ?names)"
    unfolding bad[symmetric] c by (cases ?v) simp_all
  have 2: "\<forall>e. snd (getTasks quests ia s) = Inl e \<longrightarrow>
        (\<exists>r \<in> set ?res. \<exists>dep \<in> set (after_list (?s r)).
             dep \<notin> ?names \<and> e = UnknownTaskDependencyOf dep (name (?s r)))"
  proof (intro allI impI)
    fix e assume "snd (getTasks quests ia s) = Inl e"
    then have "?v = Some e" unfolding c by (cases ?v) simp_all
    from verify_tasks_Some[OF this]
    show "\<exists>r \<in> set ?res. \<exists>dep \<in> set (after_list (?s r)).
             dep \<notin> ?names \<and> e = UnknownTaskDependencyOf dep (name (?s r))"
      by auto
  qed
  have 3: "\<forall>res. snd (getTasks quests ia s) = Inr res \<longrightarrow> res = ?res"
    unfolding c by (cases ?v) simp_all
  have 4: "distinct ?res \<longrightarrow>
        (\<forall>i < length (quest_items quests).
           ?s (snd (quest_items quests ! i)) = namespaced ia (quest_items quests) s i)"
    using getTasks_store_namespaced by blast
  show ?thesis using 1 2 3 4 by (intro conjI)
qed

lemma ex_getTasks_unknown:
  "snd (getTasks ex_quests False ex_store_unknown) = Inl (UnknownTaskDependencyOf ''Q1/z'' ''Q1/a'')"
  by code_simp

theorem getTasks_unknown_dependency_witness:
  "snd (getTasks ex_quests False ex_store) = Inr [0, 1, 2]
   \<and> after (fst (getTasks ex_quests False ex_store) 1) = Some [''Q1/a'', ''Q2/c'']
   \<and> snd (getTasks ex_quests False ex_store_unknown) =
       Inl (UnknownTaskDependencyOf ''Q1/z'' ''Q1/a'')
   \<and> (\<exists>r dep. r \<in> set (concat (map quest_tasks ex_quests))
        \<and> dep \<in> set (after_list (fst (getTasks ex_quests False ex_store_unknown) r))
        \<and> dep \<notin> (\<lambda>r'. name (fst (getTasks ex_quests False ex_store_unknown) r'))
                   ` set (concat (map quest_tasks ex_quests)))"
proof -
  have d: "distinct (concat (map quest_tasks ex_quests))" by (simp add: ex_quests_def)
  have items: "quest_items ex_quests = [(''Q1'', 0), (''Q1'', 1), (''Q2'', 2)]"
    by (simp add: quest_items_def ex_quests_def)
  note t = getTasks_unknown_dependency[of ex_quests False ex_store]
  have all: "\<forall>i < length (quest_items ex_quests).
           fst (getTasks ex_quests False ex_store) (snd (quest_items ex_quests ! i)) =
             namespaced False (quest_items ex_quests) ex_store i"
    using t[THEN conjunct2, THEN conjunct2, THEN conjunct2] d by (rule mp)
  have "fst (getTasks ex_quests False ex_store) (snd (quest_items ex_quests ! 1)) =
          namespaced False (quest_items ex_quests) ex_store 1"
    using all[rule_format, of 1] by (simp add: items)
  then have 2: "after (fst (getTasks ex_quests False ex_store) 1) = Some [''Q1/a'', ''Q2/c'']"
    unfolding items
    by (simp add: namespaced_def ex_store_def plain_task_def namespace_after_def)
  note u = getTasks_unknown_dependency[of ex_quests False ex_store_unknown]
  have "\<exists>e. snd (getTasks ex_quests False ex_store_unknown) = Inl e"
    using ex_getTasks_unknown by simp
  then have 4: "\<exists>r \<in> set (concat (map quest_tasks ex_quests)).
         \<exists>dep \<in> set (after_list (fst (getTasks ex_quests False ex_store_unknown) r)).
           dep \<notin> (\<lambda>r'. name (fst (getTasks ex_quests False ex_store_unknown) r'))
                   ` set (concat (map quest_tasks ex_quests))"
    using u[THEN conjunct1] by (rule rev_iffD1)
  show ?thesis using ex_getTasks 2 ex_getTasks_unknown 4 by blast
qed

text \<open>
  C8, as amended: with \<open>implicitAfter\<close>, and no task object twice in the quests, a task with no
  \<open>after\<close> that is not the first of the flattened list gets the one-element list of the
  final name of the task before it; the first task gets none; a task with an \<open>after\<close> list
  keeps it, namespaced.
\<close>

theorem getTasks_implicit_after:
  assumes "distinct (concat (map quest_tasks quests))"
    and "i < length (quest_items quests)"
  shows "(after (s (snd (quest_items quests ! i))) = None \<and> 0 < i \<longrightarrow>
            after (fst (getTasks quests True s) (snd (quest_items quests ! i))) =
              Some [name (fst (getTasks quests True s) (snd (quest_items quests ! (i - 1))))])
         \<and> (after (s (snd (quest_items quests ! i))) = None \<and> i = 0 \<longrightarrow>
            after (fst (getTasks quests True s) (snd (quest_items quests ! i))) = None)
         \<and> (\<forall>as. after (s (snd (quest_items quests ! i))) = Some as \<longrightarrow>
            after (fst (getTasks quests True s) (snd (quest_items quests ! i))) =
              Some (map (namespace_after (fst (quest_items quests ! i))) as))
         \<and> (\<forall>res. snd (getTasks quests True s) = Inr res \<longrightarrow>
              res = map snd (quest_items quests))"
proof -
  let ?items = "quest_items quests"
  let ?s = "fst (getTasks quests True s)"
  have cur: "?s (snd (?items ! i)) = namespaced True ?items s i"
    using getTasks_store_namespaced[OF assms] .
  have "i - 1 < length ?items" using assms(2) by simp
  then have prev: "?s (snd (?items ! (i - 1))) = namespaced True ?items s (i - 1)"
    by (rule getTasks_store_namespaced[OF assms(1)])
  have 1: "after (s (snd (?items ! i))) = None \<and> 0 < i \<longrightarrow>
            after (?s (snd (?items ! i))) = Some [name (?s (snd (?items ! (i - 1))))]"
    unfolding cur prev by (simp add: namespaced_def)
  have 2: "after (s (snd (?items ! i))) = None \<and> i = 0 \<longrightarrow> after (?s (snd (?items ! i))) = None"
    unfolding cur by (auto simp: namespaced_def)
  have 3: "\<forall>as. after (s (snd (?items ! i))) = Some as \<longrightarrow>
            after (?s (snd (?items ! i))) = Some (map (namespace_after (fst (?items ! i))) as)"
    unfolding cur by (simp add: namespaced_def)
  have 4: "\<forall>res. snd (getTasks quests True s) = Inr res \<longrightarrow> res = map snd ?items"
    using getTasks_cases[of quests True s]
    by (auto simp: map_snd_quest_items split: option.splits)
  show ?thesis using 1 2 3 4 by (intro conjI)
qed


lemma ex_getTasks_implicit: "name (fst (getTasks ex_quests True ex_store) 1) = ''Q1/b''"
  by code_simp

theorem getTasks_implicit_after_witness:
  "after (fst (getTasks ex_quests True ex_store) 2) = Some [''Q1/b'']
   \<and> after (fst (getTasks ex_quests True ex_store) 0) = None
   \<and> after (fst (getTasks ex_quests True ex_store) 1) = Some [''Q1/a'', ''Q2/c'']"
proof -
  have d: "distinct (concat (map quest_tasks ex_quests))" by (simp add: ex_quests_def)
  have items: "quest_items ex_quests = [(''Q1'', 0), (''Q1'', 1), (''Q2'', 2)]"
    by (simp add: quest_items_def ex_quests_def)
  have l: "0 < length (quest_items ex_quests)" "1 < length (quest_items ex_quests)"
    "2 < length (quest_items ex_quests)"
    by (simp_all add: items)
  have a: "after (ex_store 0) = None" "after (ex_store 1) = Some [''a'', ''Q2/c'']"
    "after (ex_store 2) = None"
    by (simp_all add: ex_store_def plain_task_def)
  have 2: "after (fst (getTasks ex_quests True ex_store) 2) = Some [''Q1/b'']"
    using getTasks_implicit_after[OF d l(3), of ex_store, THEN conjunct1] a ex_getTasks_implicit
    by (simp add: items)
  have 0: "after (fst (getTasks ex_quests True ex_store) 0) = None"
    using getTasks_implicit_after[OF d l(1), of ex_store, THEN conjunct2, THEN conjunct1] a
    by (simp add: items)
  have 1: "after (fst (getTasks ex_quests True ex_store) 1) = Some [''Q1/a'', ''Q2/c'']"
    using getTasks_implicit_after[OF d l(2), of ex_store, THEN conjunct2, THEN conjunct2,
        THEN conjunct1] a
    by (simp add: items namespace_after_def)
  show ?thesis using 2 0 1 by (intro conjI)
qed

text \<open>
  C8 as stated fails when a task object stands twice in the quests: in the quest
  \<open>[a, c, a]\<close>, \<open>c\<close> is given the name \<open>a\<close> has at that moment, Q1/a, and the second visit
  of \<open>a\<close> then renames it Q1/Q1/a, which is the final name of the task before \<open>c\<close>.
\<close>

theorem getTasks_implicit_after_counterexample:
  "quest_items ex_repeated_quests = [(''Q1'', 0), (''Q1'', 2), (''Q1'', 0)]
   \<and> after (ex_store 2) = None
   \<and> after (fst (getTasks ex_repeated_quests True ex_store) 2) = Some [''Q1/a'']
   \<and> name (fst (getTasks ex_repeated_quests True ex_store) 0) = ''Q1/Q1/a''"
  by code_simp

text \<open>
  C10: getTasks works in place.  The result is the list of the task objects of the quests
  (their addresses); in the store it leaves, every object is the one of before with only
  the \<open>name\<close> and \<open>after\<close> fields overwritten, and an object of no quest is untouched.  The
  new name is the old one with a quest prefix for each visit of the object, and a declared
  \<open>after\<close> list is namespaced with the quest of the first visit (with no object twice in the
  quests: the prefix is that of its quest, and the object is the namespaced task).  A
  second call on the same quests puts the prefixes once more before the names.
\<close>

theorem getTasks_in_place:
  "(\<forall>res. snd (getTasks quests ia s) = Inr res \<longrightarrow> res = concat (map quest_tasks quests))
   \<and> (\<forall>r. fst (getTasks quests ia s) r =
          (s r)\<lparr>name := name (fst (getTasks quests ia s) r),
                 after := after (fst (getTasks quests ia s) r)\<rparr>)
   \<and> (\<forall>r. r \<notin> set (concat (map quest_tasks quests)) \<longrightarrow> fst (getTasks quests ia s) r = s r)
   \<and> (\<forall>r. name (fst (getTasks quests ia s) r) = prefixes (quest_items quests) r @ name (s r))
   \<and> (\<forall>r as. after (s r) = Some as \<longrightarrow>
          after (fst (getTasks quests ia s) r) =
            Some (case find (\<lambda>p. snd p = r) (quest_items quests) of
                    None \<Rightarrow> as
                  | Some p \<Rightarrow> map (namespace_after (fst p)) as))
   \<and> (\<forall>r. name (fst (getTasks quests ia (fst (getTasks quests ia s))) r) =
          prefixes (quest_items quests) r @ prefixes (quest_items quests) r @ name (s r))
   \<and> (distinct (concat (map quest_tasks quests)) \<longrightarrow>
        (\<forall>i < length (quest_items quests).
           prefixes (quest_items quests) (snd (quest_items quests ! i)) =
             fst (quest_items quests ! i) @ ''/''
           \<and> fst (getTasks quests ia s) (snd (quest_items quests ! i)) =
               namespaced ia (quest_items quests) s i))"
proof -
  let ?items = "quest_items quests"
  let ?res = "concat (map quest_tasks quests)"
  let ?s = "fst (getTasks quests ia s)"
  have fs: "fst (getTasks quests ia s0) =
      fst (fold (\<lambda>p. visit_task ia (fst p) (snd p)) ?items (s0, []))" for s0 :: "('a, 'b) task_store"
    by (simp add: fst_getTasks flatten_quests_items)
  have 1: "\<forall>res. snd (getTasks quests ia s) = Inr res \<longrightarrow> res = ?res"
    using getTasks_cases[of quests ia s] by (auto split: option.splits)
  have 2: "\<forall>r. ?s r = (s r)\<lparr>name := name (?s r), after := after (?s r)\<rparr>"
    unfolding fs using fold_visit_frame[of ia ?items "(s, [])"] by simp
  have 3: "\<forall>r. r \<notin> set ?res \<longrightarrow> ?s r = s r"
    using getTasks_store_other by blast
  have 4: "\<forall>r. name (?s r) = prefixes ?items r @ name (s r)"
    unfolding fs using fold_visit_name[of ia ?items "(s, [])"] by simp
  have 5: "\<forall>r as. after (s r) = Some as \<longrightarrow>
          after (?s r) =
            Some (case find (\<lambda>p. snd p = r) ?items of
                    None \<Rightarrow> as
                  | Some p \<Rightarrow> map (namespace_after (fst p)) as)"
    unfolding fs using fold_visit_after_explicit[of "(s, [])" _ _ ia ?items] by simp
  have 6: "\<forall>r. name (fst (getTasks quests ia ?s) r) =
          prefixes ?items r @ prefixes ?items r @ name (s r)"
  proof
    fix r
    have "name (fst (getTasks quests ia ?s) r) = prefixes ?items r @ name (?s r)"
      unfolding fs[of ?s] using fold_visit_name[of ia ?items "(?s, [])" r] by simp
    then show "name (fst (getTasks quests ia ?s) r) =
          prefixes ?items r @ prefixes ?items r @ name (s r)"
      using 4 by simp
  qed
  have 7: "distinct ?res \<longrightarrow>
        (\<forall>i < length ?items.
           prefixes ?items (snd (?items ! i)) = fst (?items ! i) @ ''/''
           \<and> ?s (snd (?items ! i)) = namespaced ia ?items s i)"
  proof (intro impI allI)
    fix i assume d: "distinct ?res" and i: "i < length ?items"
    have "distinct (map snd ?items)" using d by (simp add: map_snd_quest_items)
    then have "prefixes ?items (snd (?items ! i)) = fst (?items ! i) @ ''/''"
      using i by (rule prefixes_distinct)
    moreover have "?s (snd (?items ! i)) = namespaced ia ?items s i"
      using d i by (rule getTasks_store_namespaced)
    ultimately show "prefixes ?items (snd (?items ! i)) = fst (?items ! i) @ ''/''
           \<and> ?s (snd (?items ! i)) = namespaced ia ?items s i"
      by (rule conjI)
  qed
  show ?thesis using 1 2 3 4 5 6 7 by (intro conjI)
qed

lemma ex_getTasks_twice:
  "snd (getTasks ex_quests False (fst (getTasks ex_quests False ex_store))) =
     Inl (UnknownTaskDependencyOf ''Q1/a'' ''Q1/Q1/b'')"
  by code_simp

theorem getTasks_in_place_witness:
  "name (fst (getTasks ex_quests False ex_store) 1) = ''Q1/b''
   \<and> name (fst (getTasks ex_quests False (fst (getTasks ex_quests False ex_store))) 1) = ''Q1/Q1/b''
   \<and> snd (getTasks ex_quests False (fst (getTasks ex_quests False ex_store))) =
       Inl (UnknownTaskDependencyOf ''Q1/a'' ''Q1/Q1/b'')
   \<and> name (fst (getTasks ex_shared_quests False ex_store) 0) = ''Q2/Q1/a''"
proof -
  have items: "quest_items ex_quests = [(''Q1'', 0), (''Q1'', 1), (''Q2'', 2)]"
    by (simp add: quest_items_def ex_quests_def)
  have items2: "quest_items ex_shared_quests = [(''Q1'', 0), (''Q2'', 0)]"
    by (simp add: quest_items_def ex_shared_quests_def)
  have n: "name (ex_store 1) = ''b''" "name (ex_store 0) = ''a''"
    by (simp_all add: ex_store_def plain_task_def)
  note t = getTasks_in_place[of ex_quests False ex_store]
  have 1: "name (fst (getTasks ex_quests False ex_store) 1) = ''Q1/b''"
    using t[THEN conjunct2, THEN conjunct2, THEN conjunct2, THEN conjunct1, rule_format, of 1] n
    by (simp add: items prefixes_def)
  have 2: "name (fst (getTasks ex_quests False (fst (getTasks ex_quests False ex_store))) 1) =
      ''Q1/Q1/b''"
    using t[THEN conjunct2, THEN conjunct2, THEN conjunct2, THEN conjunct2, THEN conjunct2,
        THEN conjunct1, rule_format, of 1] n
    by (simp add: items prefixes_def)
  have 3: "name (fst (getTasks ex_shared_quests False ex_store) 0) = ''Q2/Q1/a''"
    using getTasks_in_place[of ex_shared_quests False ex_store,
        THEN conjunct2, THEN conjunct2, THEN conjunct2, THEN conjunct1, rule_format, of 0] n
    by (simp add: items2 prefixes_def)
  show ?thesis using 1 2 ex_getTasks_twice 3 by (intro conjI)
qed

section \<open>orderByRoute\<close>

lemma for_each_rel:
  assumes "for_each f ys s = Some (Inr s')"
    and "\<And>y s s'. y \<in> set ys \<Longrightarrow> f y s = Some (Inr s') \<Longrightarrow> R s s'"
    and "\<And>s. R s s"
    and "\<And>a b c. R a b \<Longrightarrow> R b c \<Longrightarrow> R a c"
  shows "R s s'"
  using assms(1,2)
proof (induction ys arbitrary: s)
  case Nil
  then show ?case using assms(3) by simp
next
  case (Cons y ys)
  from Cons.prems(1) obtain s1 where s1: "f y s = Some (Inr s1)" "for_each f ys s1 = Some (Inr s')"
    by (auto split: option.splits sum.splits)
  have step: "\<And>z s s'. z \<in> set ys \<Longrightarrow> f z s = Some (Inr s') \<Longrightarrow> R s s'"
    using Cons.prems(2) by (meson list.set_intros(2))
  have "R s s1" using Cons.prems(2)[of y s s1] s1(1) by simp
  moreover have "R s1 s'" by (rule Cons.IH[OF s1(2) step])
  ultimately show ?case by (rule assms(4))
qed

lemma for_each_post:
  assumes "for_each f ys s = Some (Inr s')"
    and "\<And>y s s'. y \<in> set ys \<Longrightarrow> f y s = Some (Inr s') \<Longrightarrow> R s s' \<and> Q y s'"
    and "\<And>y a b. Q y a \<Longrightarrow> R a b \<Longrightarrow> Q y b"
    and "\<And>s. R s s"
    and "\<And>a b c. R a b \<Longrightarrow> R b c \<Longrightarrow> R a c"
  shows "\<forall>y \<in> set ys. Q y s'"
  using assms(1,2)
proof (induction ys arbitrary: s)
  case Nil
  then show ?case by simp
next
  case (Cons y ys)
  from Cons.prems(1) obtain s1 where s1: "f y s = Some (Inr s1)" "for_each f ys s1 = Some (Inr s')"
    by (auto split: option.splits sum.splits)
  have step: "\<And>z s s'. z \<in> set ys \<Longrightarrow> f z s = Some (Inr s') \<Longrightarrow> R s s' \<and> Q z s'"
    using Cons.prems(2) by (meson list.set_intros(2))
  have stepR: "\<And>z s s'. z \<in> set ys \<Longrightarrow> f z s = Some (Inr s') \<Longrightarrow> R s s'"
    using step by blast
  have y: "Q y s1" using Cons.prems(2)[of y s s1] s1(1) by simp
  have "R s1 s'"
    by (rule for_each_rel[of f ys s1 s' R, OF s1(2) stepR assms(4,5)])
  with y have "Q y s'" by (rule assms(3))
  moreover have "\<forall>z \<in> set ys. Q z s'" by (rule Cons.IH[OF s1(2) step])
  ultimately show ?case by simp
qed

lemma lowered_refl: "lowered nums pr pr"
  by (simp add: lowered_def)

lemma lowered_trans:
  assumes "lowered nums a b" "lowered nums b c"
  shows "lowered nums a c"
proof -
  have t: "task_at c = task_at a" using assms by (simp add: lowered_def)
  have m: "\<forall>x. pri nums c x \<le> pri nums a x" using assms unfolding lowered_def by (meson order_trans)
  have s: "\<forall>u. settled nums a u \<or> pri nums c u \<noteq> pri nums a u \<longrightarrow> settled nums c u"
  proof (intro allI impI)
    fix u assume h: "settled nums a u \<or> pri nums c u \<noteq> pri nums a u"
    show "settled nums c u"
    proof (cases "settled nums a u \<or> pri nums b u \<noteq> pri nums a u")
      case True
      then have "settled nums b u" using assms(1) unfolding lowered_def by blast
      then show ?thesis using assms(2) unfolding lowered_def by blast
    next
      case False
      then have "pri nums c u \<noteq> pri nums b u" using h by auto
      then show ?thesis using assms(2) unfolding lowered_def by blast
    qed
  qed
  show ?thesis using t m s by (simp add: lowered_def)
qed

lemma lowered_dom: "lowered nums pr pr' \<Longrightarrow> dom pr' = dom pr"
proof -
  assume "lowered nums pr pr'"
  then have "task_at pr' = task_at pr" by (simp add: lowered_def)
  then have "\<And>x. (pr' x = None) = (pr x = None)"
    by (metis task_at_def map_option_is_None)
  then show ?thesis by (auto simp: dom_def)
qed


lemma pri_upd: "pri nums (pr(x \<mapsto> (p, tk))) z = (if z = x then p else pri nums pr z)"
  by (simp add: pri_def)

lemma task_at_upd: "pr x = Some (old, tk) \<Longrightarrow> task_at (pr(x \<mapsto> (p, tk))) = task_at pr"
  by (auto simp: task_at_def fun_eq_iff)

lemma task_at_Some: "task_at pr x = Some tk \<longleftrightarrow> (\<exists>q. pr x = Some (q, tk))"
  by (auto simp: task_at_def)

lemma pri_Some: "pr x = Some (q, tk) \<Longrightarrow> pri nums pr x = q"
  by (simp add: pri_def)

lemma settled_upd:
  assumes "pr x = Some (old, tk)" "p \<le> old" "u \<noteq> x" "settled nums pr u"
  shows "settled nums (pr(x \<mapsto> (p, tk))) u"
proof -
  have d: "dom (pr(x \<mapsto> (p, tk))) = dom pr" using assms(1) by auto
  have m: "pri nums (pr(x \<mapsto> (p, tk))) v \<le> pri nums pr v" for v
    using assms(1,2) by (simp add: pri_upd pri_Some)
  show ?thesis
  proof (cases "pr u")
    case None
    then show ?thesis using assms(3) by (simp add: settled_def)
  next
    case (Some q)
    have "pri nums (pr(x \<mapsto> (p, tk))) v \<le> minus_hundredth nums (fst q)"
      if "fst q < index_number nums 1000" "v \<in> set (after_list (snd q))" "v \<in> dom pr" for v
    proof -
      have "pri nums pr v \<le> minus_hundredth nums (fst q)"
        using assms(4) Some that unfolding settled_def by auto
      then show ?thesis using m[of v] by (rule order_trans[rotated])
    qed
    then show ?thesis using assms(3) Some d unfolding settled_def by auto
  qed
qed

lemma settledI:
  assumes "pr x = Some (q, tk)"
    and "\<forall>v \<in> set (after_list tk). v \<in> dom pr \<longrightarrow> pri nums pr v \<le> minus_hundredth nums q"
  shows "settled nums pr x"
  using assms unfolding settled_def by auto

lemma setPriorityRecursive_lowered:
  fixes pr pr' :: "('n::linorder, 'w, 'm) priorities"
  shows "setPriorityRecursive nums d ign x p pr = Some (Inr pr') \<Longrightarrow>
   lowered nums pr pr' \<and> (x \<in> dom pr \<longrightarrow> pri nums pr' x \<le> p)"
proof (induction d arbitrary: x p pr pr')
  case 0
  then show ?case by simp
next
  case (Suc d)
  show ?case
  proof (cases "pr x")
    case None
    then have "pr' = pr" using Suc.prems by (simp split: if_splits)
    then show ?thesis using None by (auto simp: lowered_refl)
  next
    case (Some op)
    obtain old tk where op: "op = (old, tk)" by (cases op)
    note px = Some[unfolded op]
    show ?thesis
    proof (cases "old \<le> p")
      case True
      then have "pr' = pr" using Suc.prems px by simp
      then show ?thesis using px True by (simp add: lowered_refl pri_Some)
    next
      case False
      let ?pr1 = "pr(x \<mapsto> (p, tk))"
      let ?f = "\<lambda>y. setPriorityRecursive nums d ign y (minus_hundredth nums p)"
      let ?Q = "\<lambda>y (s :: ('n::linorder, 'w, 'm) priorities). y \<in> dom s \<longrightarrow> pri nums s y \<le> minus_hundredth nums p"
      have loop: "for_each ?f (after_list tk) ?pr1 = Some (Inr pr')"
        using Suc.prems px False by simp
      have ih: "lowered nums s s' \<and> ?Q y s'" if "?f y s = Some (Inr s')"
        for y and s s' :: "('n::linorder, 'w, 'm) priorities"
      proof -
        have "lowered nums s s' \<and> (y \<in> dom s \<longrightarrow> pri nums s' y \<le> minus_hundredth nums p)"
          using Suc.IH[OF that] .
        then show ?thesis using lowered_dom[of nums s s'] by auto
      qed
      have ihR: "lowered nums s s'" if "?f y s = Some (Inr s')"
        for y and s s' :: "('n::linorder, 'w, 'm) priorities"
        using ih[OF that] by simp
      have stable: "?Q y b" if "?Q y a" "lowered nums a b"
        for y and a b :: "('n::linorder, 'w, 'm) priorities"
      proof -
        have "dom b = dom a" using that(2) by (rule lowered_dom)
        moreover have "pri nums b y \<le> pri nums a y" using that(2) unfolding lowered_def by blast
        ultimately show ?thesis using that(1) by auto
      qed
      have L1: "lowered nums ?pr1 pr'"
        by (rule for_each_rel[of ?f "after_list tk" ?pr1 pr' "lowered nums", OF loop ihR lowered_refl lowered_trans])
      have L2: "\<forall>y \<in> set (after_list tk). ?Q y pr'"
        by (rule for_each_post[of ?f "after_list tk" ?pr1 pr' "lowered nums" ?Q,
              OF loop ih stable lowered_refl lowered_trans])
      have t1: "task_at ?pr1 = task_at pr" using px by (rule task_at_upd)
      have t: "task_at pr' = task_at pr" using L1 t1 by (simp add: lowered_def)
      have m1: "pri nums pr' z \<le> pri nums ?pr1 z" for z using L1 unfolding lowered_def by blast
      have m: "pri nums pr' z \<le> pri nums pr z" for z
        using m1[of z] False px by (auto simp: pri_upd pri_Some split: if_splits)
      have xp: "pri nums pr' x \<le> p" using m1[of x] by (simp add: pri_upd)
      have st: "settled nums pr' u" if h: "settled nums pr u \<or> pri nums pr' u \<noteq> pri nums pr u" for u
      proof (cases "u = x")
        case u: False
        then have same: "pri nums ?pr1 u = pri nums pr u" by (simp add: pri_upd)
        show ?thesis
        proof (cases "settled nums pr u")
          case True
          have "settled nums ?pr1 u" using settled_upd[OF px _ u True] False by simp
          then show ?thesis using L1 unfolding lowered_def by blast
        next
          case False
          then have "pri nums pr' u \<noteq> pri nums ?pr1 u" using h same by simp
          then show ?thesis using L1 unfolding lowered_def by blast
        qed
      next
        case u: True
        show ?thesis
        proof (cases "pri nums pr' x = pri nums ?pr1 x")
          case False
          then show ?thesis using L1 u unfolding lowered_def by blast
        next
          case True
          then have px': "pri nums pr' x = p" by (simp add: pri_upd)
          have "task_at pr' x = Some tk" using t px by (simp add: task_at_def)
          then obtain q where q: "pr' x = Some (q, tk)" by (auto simp: task_at_Some)
          then have "q = p" using px' by (simp add: pri_Some)
          then have "pr' x = Some (p, tk)" using q by simp
          then have "settled nums pr' x" using L2 by (rule settledI)
          then show ?thesis using u by simp
        qed
      qed
      have "lowered nums pr pr'" using t m st unfolding lowered_def by blast
      then show ?thesis using xp by simp
    qed
  qed
qed

lemma for_each_mono:
  assumes "for_each f ys s = Some r"
    and "\<And>y s r. y \<in> set ys \<Longrightarrow> f y s = Some r \<Longrightarrow> g y s = Some r"
  shows "for_each g ys s = Some r"
  using assms
proof (induction ys arbitrary: s)
  case Nil
  then show ?case by simp
next
  case (Cons y ys)
  have step: "\<And>z s r. z \<in> set ys \<Longrightarrow> f z s = Some r \<Longrightarrow> g z s = Some r"
    using Cons.prems(2) by (meson list.set_intros(2))
  obtain r1 where r1: "f y s = Some r1"
    using Cons.prems(1) by (cases "f y s") simp_all
  then have g1: "g y s = Some r1" using Cons.prems(2)[of y s r1] by simp
  show ?case
  proof (cases r1)
    case (Inl e)
    then have "r = Inl e" using Cons.prems(1) r1 by simp
    then show ?thesis using r1 g1 Inl by simp
  next
    case (Inr s1)
    then have "for_each f ys s1 = Some r" using Cons.prems(1) r1 by simp
    then have "for_each g ys s1 = Some r" by (rule Cons.IH[OF _ step])
    then show ?thesis using g1 Inr by simp
  qed
qed

lemma setPriorityRecursive_mono:
  "setPriorityRecursive nums d ign x p pr = Some r \<Longrightarrow> d \<le> d' \<Longrightarrow>
   setPriorityRecursive nums d' ign x p pr = Some r"
proof (induction d arbitrary: x p pr r d')
  case 0
  then show ?case by simp
next
  case (Suc d)
  then obtain e where d': "d' = Suc e" and le: "d \<le> e" by (cases d') auto
  show ?case
  proof (cases "pr x")
    case None
    then show ?thesis using Suc.prems(1) d' by simp
  next
    case (Some op)
    show ?thesis
    proof (cases "fst op \<le> p")
      case True
      then show ?thesis using Suc.prems(1) d' Some by simp
    next
      case False
      let ?pr1 = "pr(x \<mapsto> (p, snd op))"
      have "for_each (\<lambda>y. setPriorityRecursive nums d ign y (minus_hundredth nums p)) (after_list (snd op)) ?pr1 = Some r"
        using Suc.prems(1) Some False by simp
      then have "for_each (\<lambda>y. setPriorityRecursive nums e ign y (minus_hundredth nums p)) (after_list (snd op)) ?pr1 = Some r"
        by (rule for_each_mono) (rule Suc.IH[OF _ le])
      then show ?thesis using d' Some False by simp
    qed
  qed
qed

lemma for_each_no_error:
  assumes "for_each f ys s = Some (Inl e)"
    and "I s"
    and "\<And>y s s'. y \<in> set ys \<Longrightarrow> I s \<Longrightarrow> f y s = Some (Inr s') \<Longrightarrow> I s'"
    and "\<And>y s e. y \<in> set ys \<Longrightarrow> I s \<Longrightarrow> f y s \<noteq> Some (Inl e)"
  shows False
  using assms
proof (induction ys arbitrary: s)
  case Nil
  then show ?case by simp
next
  case (Cons y ys)
  have s1: "\<And>z s s'. z \<in> set ys \<Longrightarrow> I s \<Longrightarrow> f z s = Some (Inr s') \<Longrightarrow> I s'"
    using Cons.prems(3) by (meson list.set_intros(2))
  have s2: "\<And>z s e. z \<in> set ys \<Longrightarrow> I s \<Longrightarrow> f z s \<noteq> Some (Inl e)"
    using Cons.prems(4) by (meson list.set_intros(2))
  obtain r1 where r1: "f y s = Some r1"
    using Cons.prems(1) by (cases "f y s") simp_all
  show ?case
  proof (cases r1)
    case (Inl e')
    then show ?thesis using Cons.prems(4)[of y s e'] Cons.prems(2) r1 by simp
  next
    case (Inr s')
    then have "for_each f ys s' = Some (Inl e)" using Cons.prems(1) r1 by simp
    moreover have "I s'" using Cons.prems(3)[of y s s'] Cons.prems(2) r1 Inr by simp
    ultimately show ?thesis using Cons.IH s1 s2 by blast
  qed
qed

lemma lowered_task_at: "lowered nums pr pr' \<Longrightarrow> task_at pr' = task_at pr"
  by (simp add: lowered_def)

lemma for_each_terminates:
  assumes "I s"
    and "\<And>y s. y \<in> set ys \<Longrightarrow> I s \<Longrightarrow> f y s \<noteq> None"
    and "\<And>y s s'. y \<in> set ys \<Longrightarrow> I s \<Longrightarrow> f y s = Some (Inr s') \<Longrightarrow> I s'"
  shows "for_each f ys s \<noteq> None"
  using assms
proof (induction ys arbitrary: s)
  case Nil
  then show ?case by simp
next
  case (Cons y ys)
  have s1: "\<And>z s. z \<in> set ys \<Longrightarrow> I s \<Longrightarrow> f z s \<noteq> None"
    using Cons.prems(2) by (meson list.set_intros(2))
  have s2: "\<And>z s s'. z \<in> set ys \<Longrightarrow> I s \<Longrightarrow> f z s = Some (Inr s') \<Longrightarrow> I s'"
    using Cons.prems(3) by (meson list.set_intros(2))
  obtain r1 where r1: "f y s = Some r1"
    using Cons.prems(2)[of y s] Cons.prems(1) by auto
  show ?case
  proof (cases r1)
    case (Inl e)
    then show ?thesis using r1 by simp
  next
    case (Inr s')
    then have "I s'" using Cons.prems(3)[of y s s'] Cons.prems(1) r1 by simp
    then have "for_each f ys s' \<noteq> None" by (rule Cons.IH[OF _ s1 s2])
    then show ?thesis using r1 Inr by simp
  qed
qed

text \<open>A depth that is enough for a name, whatever the priorities over the same tasks.\<close>

lemma enough_mono:
  fixes T :: "string \<Rightarrow> ('w, 'm) task option"
  assumes "\<forall>(pr :: ('n::linorder, 'w, 'm) priorities) p. task_at pr = T \<longrightarrow> setPriorityRecursive nums n ign y p pr \<noteq> None"
    and "n \<le> n'"
  shows "\<forall>(pr :: ('n::linorder, 'w, 'm) priorities) p. task_at pr = T \<longrightarrow> setPriorityRecursive nums n' ign y p pr \<noteq> None"
proof (intro allI impI)
  fix pr :: "('n::linorder, 'w, 'm) priorities" and p
  assume "task_at pr = T"
  then obtain r where "setPriorityRecursive nums n ign y p pr = Some r" using assms(1) by auto
  then have "setPriorityRecursive nums n' ign y p pr = Some r"
    using assms(2) by (rule setPriorityRecursive_mono)
  then show "setPriorityRecursive nums n' ign y p pr \<noteq> None" by simp
qed

lemma enough_uniform:
  fixes T :: "string \<Rightarrow> ('w, 'm) task option"
  assumes "\<forall>y \<in> set ys. \<exists>n. \<forall>(pr :: ('n::linorder, 'w, 'm) priorities) p.
             task_at pr = T \<longrightarrow> setPriorityRecursive nums n ign y p pr \<noteq> None"
  shows "\<exists>N. \<forall>y \<in> set ys. \<forall>(pr :: ('n::linorder, 'w, 'm) priorities) p.
             task_at pr = T \<longrightarrow> setPriorityRecursive nums N ign y p pr \<noteq> None"
  using assms
proof (induction ys)
  case Nil
  then show ?case by simp
next
  case (Cons y ys)
  then obtain N where N: "\<forall>z \<in> set ys. \<forall>(pr :: ('n::linorder, 'w, 'm) priorities) p.
             task_at pr = T \<longrightarrow> setPriorityRecursive nums N ign z p pr \<noteq> None"
    by auto
  obtain n where n: "\<forall>(pr :: ('n::linorder, 'w, 'm) priorities) p.
             task_at pr = T \<longrightarrow> setPriorityRecursive nums n ign y p pr \<noteq> None"
    using Cons.prems by auto
  have a: "\<forall>(pr :: ('n::linorder, 'w, 'm) priorities) p.
             task_at pr = T \<longrightarrow> setPriorityRecursive nums (max n N) ign y p pr \<noteq> None"
    using enough_mono[OF n, of "max n N"] by simp
  have b: "\<forall>z \<in> set ys. \<forall>(pr :: ('n::linorder, 'w, 'm) priorities) p.
             task_at pr = T \<longrightarrow> setPriorityRecursive nums (max n N) ign z p pr \<noteq> None"
  proof
    fix z assume "z \<in> set ys"
    then have "\<forall>(pr :: ('n::linorder, 'w, 'm) priorities) p.
             task_at pr = T \<longrightarrow> setPriorityRecursive nums N ign z p pr \<noteq> None" using N by blast
    then show "\<forall>(pr :: ('n::linorder, 'w, 'm) priorities) p.
             task_at pr = T \<longrightarrow> setPriorityRecursive nums (max n N) ign z p pr \<noteq> None"
      by (rule enough_mono) simp
  qed
  show ?case using a b by (intro exI[of _ "max n N"]) simp
qed

lemma loop_terminates:
  fixes s :: "('n::linorder, 'w, 'm) priorities"
  assumes "task_at s = T"
    and "\<forall>y \<in> set ys. \<forall>(pr :: ('n::linorder, 'w, 'm) priorities) p.
             task_at pr = T \<longrightarrow> setPriorityRecursive nums N ign (g y) p pr \<noteq> None"
  shows "for_each (\<lambda>y. setPriorityRecursive nums N ign (g y) (h y)) ys s \<noteq> None"
proof (rule for_each_terminates[where I = "\<lambda>s. task_at s = T"])
  show "task_at s = T" by (rule assms(1))
next
  fix y and s :: "('n::linorder, 'w, 'm) priorities"
  assume "y \<in> set ys" "task_at s = T"
  then show "setPriorityRecursive nums N ign (g y) (h y) s \<noteq> None" using assms(2) by blast
next
  fix y and s s' :: "('n::linorder, 'w, 'm) priorities"
  assume "task_at s = T" "setPriorityRecursive nums N ign (g y) (h y) s = Some (Inr s')"
  then show "task_at s' = T"
    using setPriorityRecursive_lowered[of nums N ign "g y" "h y" s s'] lowered_task_at by metis
qed

lemma node_terminates:
  fixes T :: "string \<Rightarrow> ('w, 'm) task option"
  defines "G \<equiv> {(u, v). \<exists>tk. T u = Some tk \<and> v \<in> set (after_list tk)}"
  assumes fin: "finite G"
    and cl: "\<forall>u \<in> A. \<forall>v. (u, v) \<in> G \<longrightarrow> v \<in> A"
    and ac: "acyclic (Restr G A)"
  shows "x \<in> A \<Longrightarrow> \<exists>n. \<forall>(pr :: ('n::linorder, 'w, 'm) priorities) p.
           task_at pr = T \<longrightarrow> setPriorityRecursive nums n ign x p pr \<noteq> None"
proof -
  have "finite (Restr G A)" using fin by simp
  then have wf: "wf ((Restr G A)\<inverse>)" using ac by (rule finite_acyclic_wf_converse)
  show "x \<in> A \<Longrightarrow> \<exists>n. \<forall>(pr :: ('n::linorder, 'w, 'm) priorities) p.
           task_at pr = T \<longrightarrow> setPriorityRecursive nums n ign x p pr \<noteq> None"
    using wf
  proof (induction x rule: wf_induct_rule)
    case (less x)
    show ?case
    proof (cases "T x")
      case None
      have "\<forall>(pr :: ('n::linorder, 'w, 'm) priorities) p.
           task_at pr = T \<longrightarrow> setPriorityRecursive nums (Suc 0) ign x p pr \<noteq> None"
      proof (intro allI impI)
        fix pr :: "('n::linorder, 'w, 'm) priorities" and p
        assume "task_at pr = T"
        then have "pr x = None" using None by (auto simp: task_at_def)
        then show "setPriorityRecursive nums (Suc 0) ign x p pr \<noteq> None" by simp
      qed
      then show ?thesis by blast
    next
      case (Some tk)
      have "\<forall>y \<in> set (after_list tk). \<exists>n. \<forall>(pr :: ('n::linorder, 'w, 'm) priorities) p.
             task_at pr = T \<longrightarrow> setPriorityRecursive nums n ign y p pr \<noteq> None"
      proof
        fix y assume y: "y \<in> set (after_list tk)"
        then have e: "(x, y) \<in> G" using Some by (auto simp: G_def)
        then have yA: "y \<in> A" using cl less.prems by blast
        then have "(y, x) \<in> (Restr G A)\<inverse>" using e less.prems by simp
        then show "\<exists>n. \<forall>(pr :: ('n::linorder, 'w, 'm) priorities) p.
             task_at pr = T \<longrightarrow> setPriorityRecursive nums n ign y p pr \<noteq> None"
          using less.IH yA by blast
      qed
      then obtain N where N: "\<forall>y \<in> set (after_list tk). \<forall>(pr :: ('n::linorder, 'w, 'm) priorities) p.
             task_at pr = T \<longrightarrow> setPriorityRecursive nums N ign y p pr \<noteq> None"
        using enough_uniform by blast
      have "\<forall>(pr :: ('n::linorder, 'w, 'm) priorities) p.
           task_at pr = T \<longrightarrow> setPriorityRecursive nums (Suc N) ign x p pr \<noteq> None"
      proof (intro allI impI)
        fix pr :: "('n::linorder, 'w, 'm) priorities" and p
        assume T: "task_at pr = T"
        then obtain old where px: "pr x = Some (old, tk)"
          using Some by (auto simp: task_at_def)
        show "setPriorityRecursive nums (Suc N) ign x p pr \<noteq> None"
        proof (cases "old \<le> p")
          case True
          then show ?thesis using px by simp
        next
          case False
          have "task_at (pr(x \<mapsto> (p, tk))) = T" using task_at_upd[of pr x old tk p] px T by simp
          then have "for_each (\<lambda>y. setPriorityRecursive nums N ign (id y) (minus_hundredth nums p))
                       (after_list tk) (pr(x \<mapsto> (p, tk))) \<noteq> None"
            using N by (intro loop_terminates[where T = T]) simp_all
          then show ?thesis using px False by simp
        qed
      qed
      then show ?thesis by blast
    qed
  qed
qed

end
